theory Spec2Isabelle
  imports Complex_Main
begin

section \<open>Errors\<close>

text \<open>
  The exceptions the modelled code raises, each with its message.
  \<open>NetworkXError\<close> comes from the generator, \<open>StopIteration\<close> from asking an
  empty graph for an element, \<open>TypeError\<close> and \<open>ArpackError\<close> from the eigenvalue
  solver, \<open>AssertionError\<close> from the \<^verbatim>\<open>assert\<close> of the lifting's constructor
  and \<open>KeyError\<close> from a failed dictionary lookup.
\<close>

datatype error =
    NetworkXError string
  | StopIteration
  | TypeError string
  | ArpackError string
  | AssertionError string
  | KeyError string

text \<open>Decimal rendering of an integer, as an f-string does it.\<close>

fun dec_nat :: "nat \<Rightarrow> string" where
  "dec_nat k = (if k < 10 then [char_of (48 + k)] else dec_nat (k div 10) @ [char_of (48 + k mod 10)])"

definition str_int :: "int \<Rightarrow> string" where
  "str_int i = (if i < 0 then CHR ''-'' # dec_nat (nat (- i)) else dec_nat (nat i))"

section \<open>Undirected simple graphs of the graph library\<close>

text \<open>
  An undirected graph object: its node set and its adjacency, kept symmetric (an
  edge \<open>u - v\<close> is stored as \<open>(u, v)\<close> and \<open>(v, u)\<close>, a self-loop as \<open>(u, u)\<close>).
  Such an object cannot hold two edges between the same two nodes.
\<close>

record graph =
  nodes :: "nat set"
  adj :: "(nat \<times> nat) set"

definition empty_graph :: "nat \<Rightarrow> graph" where
  "empty_graph n = \<lparr>nodes = set [0..<n], adj = {}\<rparr>"

definition add_edges_from :: "graph \<Rightarrow> (nat \<times> nat) set \<Rightarrow> graph" where
  "add_edges_from G es =
     \<lparr>nodes = nodes G \<union> fst ` es \<union> snd ` es, adj = adj G \<union> es \<union> es\<inverse>\<rparr>"

text \<open>The degree of a node: its number of neighbours, a self-loop counting twice.\<close>

definition degree :: "graph \<Rightarrow> nat \<Rightarrow> nat" where
  "degree G u = card (adj G `` {u}) + (if (u, u) \<in> adj G then 1 else 0)"

text \<open>The number of edges of the graph, each undirected edge counted once.\<close>

definition number_of_edges :: "graph \<Rightarrow> nat" where
  "number_of_edges G = card (Set.filter (\<lambda>(u, v). u \<le> v) (adj G))"

text \<open>
  \<^verbatim>\<open>nx.is_regular\<close>, in the version of the library for which the generator
  under study is used: it takes an arbitrary (the first) node with
  \<^verbatim>\<open>arbitrary_element(G)\<close>, which raises \<open>StopIteration\<close> on the graph with no
  node, and compares the degree of every node with the degree of that one.
\<close>

definition is_regular :: "graph \<Rightarrow> error + bool" where
  "is_regular G =
     (if nodes G = {} then Inl StopIteration
      else Inr (\<forall>u \<in> nodes G. degree G u = degree G (Min (nodes G))))"

text \<open>
  \<^verbatim>\<open>nx.utils.pairwise(cycle, cyclic=True)\<close>: the pairs of consecutive elements,
  closed by the pair of the last and the first element.
\<close>

definition pairwise_cyclic :: "'a list \<Rightarrow> ('a \<times> 'a) list" where
  "pairwise_cyclic xs = (case xs of [] \<Rightarrow> [] | x # ys \<Rightarrow> zip xs (ys @ [x]))"

section \<open>The random source\<close>

text \<open>
  The only random operation of the generator is \<^verbatim>\<open>seed.permutation(n - 1)\<close>.
  A generator state is modelled by the results of the calls still to come: each
  call takes the head of the list and leaves the tail. A run that asks for a draw
  when the list is empty has no result (\<open>None\<close>): the list is the fuel of the run.
\<close>

type_synonym rng = "nat list list"

type_synonym 'a run = "((error + 'a) \<times> rng) option"

section \<open>maybe\_regular\_expander\<close>

text \<open>
  One pass through the body of the \<^verbatim>\<open>while\<close> loop, on the state
  \<open>(cycles, edges)\<close>: the drawn permutation of \<open>0 .. n - 2\<close> is closed into a
  cycle by \<open>n - 1\<close>; the cycle is taken when none of its \<open>n\<close> pairs is in \<open>edges\<close>
  in either direction.
\<close>

definition attempt_cycle ::
  "nat \<Rightarrow> nat list list \<times> (nat \<times> nat) set \<Rightarrow> nat list \<Rightarrow> nat list list \<times> (nat \<times> nat) set" where
  "attempt_cycle n st perm =
     (case st of (cycles, edges) \<Rightarrow>
        let cycle = perm @ [n - 1];
            new_edges = Set.filter (\<lambda>(u, v). (u, v) \<notin> edges \<and> (v, u) \<notin> edges)
                          (set (pairwise_cyclic cycle))
        in if card new_edges = n then (cycles @ [cycle], edges \<union> new_edges)
           else (cycles, edges))"

text \<open>
  The \<^verbatim>\<open>while len(edges) != (i + 1) * n\<close> loop that looks for the cycle number
  \<open>i\<close>; \<open>iterations\<close> counts down from \<open>max_tries\<close> and is compared with 0 at the
  end of every pass.
\<close>

fun while_cycle ::
  "nat \<Rightarrow> nat \<Rightarrow> int \<Rightarrow> nat list list \<times> (nat \<times> nat) set \<Rightarrow> rng
    \<Rightarrow> (nat list list \<times> (nat \<times> nat) set) run" where
  "while_cycle n i iterations st [] =
     (if card (snd st) \<noteq> (i + 1) * n then None else Some (Inr st, []))"
| "while_cycle n i iterations st (perm # rng) =
     (if card (snd st) \<noteq> (i + 1) * n then
        (let st' = attempt_cycle n st perm in
         if iterations - 1 = 0
         then Some (Inl (NetworkXError ''Too many iterations in maybe_regular_expander''), rng)
         else while_cycle n i (iterations - 1) st' rng)
      else Some (Inr st, perm # rng))"

text \<open>The \<^verbatim>\<open>for i in range(d // 2)\<close> loop around it.\<close>

fun for_cycles ::
  "nat \<Rightarrow> int \<Rightarrow> nat list \<Rightarrow> nat list list \<times> (nat \<times> nat) set \<Rightarrow> rng
    \<Rightarrow> (nat list list \<times> (nat \<times> nat) set) run" where
  "for_cycles n max_tries [] st rng = Some (Inr st, rng)"
| "for_cycles n max_tries (i # is) st rng =
     (case while_cycle n i max_tries st rng of
        None \<Rightarrow> None
      | Some (Inl e, rng') \<Rightarrow> Some (Inl e, rng')
      | Some (Inr st', rng') \<Rightarrow> for_cycles n max_tries is st' rng')"

definition maybe_regular_expander :: "int \<Rightarrow> int \<Rightarrow> int \<Rightarrow> rng \<Rightarrow> graph run" where
  "maybe_regular_expander n d max_tries rng =
     (if n < 1 then Some (Inl (NetworkXError ''n must be a positive integer''), rng)
      else if \<not> d \<ge> 2 then
        Some (Inl (NetworkXError ''d must be greater than or equal to 2''), rng)
      else if \<not> d mod 2 = 0 then Some (Inl (NetworkXError ''d must be even''), rng)
      else if \<not> n - 1 \<ge> d then
        Some (Inl (NetworkXError (''Need n-1>= d to have room for '' @ str_int (d div 2)
                @ '' independent cycles with '' @ str_int n @ '' nodes'')), rng)
      else
        (let G = empty_graph (nat n) in
         if n < 2 then Some (Inr G, rng)
         else
           (case for_cycles (nat n) max_tries [0..<nat (d div 2)] ([], {}) rng of
              None \<Rightarrow> None
            | Some (Inl e, rng') \<Rightarrow> Some (Inl e, rng')
            | Some (Inr st, rng') \<Rightarrow> Some (Inr (add_edges_from G (snd st)), rng'))))"

text \<open>
  What the library promises of \<^verbatim>\<open>seed.permutation(k)\<close>: a list holding each of
  \<open>0 .. k - 1\<close> once.
\<close>

definition permutation_of :: "nat \<Rightarrow> nat list \<Rightarrow> bool" where
  "permutation_of k p \<longleftrightarrow> sort p = [0..<k]"

section \<open>The invariant of the cycle loops\<close>

text \<open>
  \<open>cycles_union n k E\<close>: the set \<open>E\<close> of ordered pairs over the nodes \<open>0 .. n - 1\<close>
  holds \<open>k * n\<close> pairs, no pair together with its reverse (so no pair \<open>(u, u)\<close>
  either), and every node is the first component of exactly \<open>k\<close> pairs and the
  second component of exactly \<open>k\<close> pairs. It is what the union of \<open>k\<close>
  edge-disjoint cycles through all nodes looks like.
\<close>

definition cycles_union :: "nat \<Rightarrow> nat \<Rightarrow> (nat \<times> nat) set \<Rightarrow> bool" where
  "cycles_union n k E \<longleftrightarrow>
     finite E \<and> E \<subseteq> {..<n} \<times> {..<n} \<and> E \<inter> E\<inverse> = {} \<and> card E = k * n \<and>
     (\<forall>u<n. card (E `` {u}) = k \<and> card (E\<inverse> `` {u}) = k)"

section \<open>Properties of the cycle construction\<close>

text \<open>
  The pairs of a cycle through all nodes, the step of the invariant when a cycle is
  taken, and the invariant along the two loops. The loops hand back the part of
  the random source they did not use.
\<close>

lemma pairwise_cyclic_rotate1: "pairwise_cyclic xs = zip xs (rotate1 xs)"
  by (cases xs) (simp_all add: pairwise_cyclic_def)

lemma zip_Image_single:
  assumes "distinct xs" "length xs = length ys" "i < length xs"
  shows "set (zip xs ys) `` {xs ! i} = {ys ! i}"
proof -
  have "\<And>v. (xs ! i, v) \<in> set (zip xs ys) \<longleftrightarrow> v = ys ! i"
  proof
    fix v assume "(xs ! i, v) \<in> set (zip xs ys)"
    then obtain j where j: "j < length xs" "xs ! j = xs ! i" "ys ! j = v"
      using assms(2) by (auto simp: in_set_zip)
    with assms(1,3) have "j = i" by (simp add: nth_eq_iff_index_eq)
    with j show "v = ys ! i" by simp
  next
    fix v assume "v = ys ! i"
    then show "(xs ! i, v) \<in> set (zip xs ys)"
      using assms(2,3) by (auto simp: in_set_zip)
  qed
  then show ?thesis by auto
qed

lemma zip_Image_card:
  assumes "distinct xs" "length xs = length ys" "u \<in> set xs"
  shows "card (set (zip xs ys) `` {u}) = 1"
proof -
  from assms(3) obtain i where "i < length xs" "xs ! i = u"
    by (auto simp: in_set_conv_nth)
  with zip_Image_single[OF assms(1,2), of i] show ?thesis by simp
qed

lemma set_zip_converse: "(set (zip xs ys))\<inverse> = set (zip ys xs)"
  by (auto simp: in_set_zip)

lemma cyc_no_both:
  assumes "distinct xs" "3 \<le> length xs"
  shows "set (zip xs (rotate1 xs)) \<inter> (set (zip xs (rotate1 xs)))\<inverse> = {}"
proof -
  let ?n = "length xs"
  {
    fix u v assume "(u, v) \<in> set (zip xs (rotate1 xs))" "(v, u) \<in> set (zip xs (rotate1 xs))"
    then obtain i j where i: "i < ?n" "xs ! i = u" "rotate1 xs ! i = v"
      and j: "j < ?n" "xs ! j = v" "rotate1 xs ! j = u"
      by (auto simp: in_set_zip)
    from i have v: "v = xs ! (Suc i mod ?n)" by (simp add: nth_rotate1)
    from j have u: "u = xs ! (Suc j mod ?n)" by (simp add: nth_rotate1)
    have npos: "0 < ?n" using i(1) by auto
    have bi: "Suc i mod ?n < ?n" and bj: "Suc j mod ?n < ?n"
      using npos by simp_all
    have "xs ! j = xs ! (Suc i mod ?n)" using j(2) v by simp
    then have "j = Suc i mod ?n"
      using nth_eq_iff_index_eq[OF assms(1) j(1) bi] by simp
    moreover have "xs ! i = xs ! (Suc j mod ?n)" using i(2) u by simp
    then have "i = Suc j mod ?n"
      using nth_eq_iff_index_eq[OF assms(1) i(1) bj] by simp
    ultimately have "i = Suc (Suc i mod ?n) mod ?n" by simp
    then have eq: "i = (i + 2) mod ?n" by (simp add: mod_Suc_eq)
    have False
    proof (cases "i + 2 < ?n")
      case True
      with eq show False by simp
    next
      case False
      then have "(i + 2) mod ?n = i + 2 - ?n"
        using i(1) assms(2) by (simp add: le_mod_geq)
      with eq i(1) assms(2) False show False by arith
    qed
  }
  then show ?thesis by auto
qed

lemma cycle_of_perm:
  assumes "permutation_of (n - 1) perm" "0 < n"
  shows "distinct (perm @ [n - 1])" "set (perm @ [n - 1]) = {..<n}" "length (perm @ [n - 1]) = n"
proof -
  have srt: "sort perm = [0..<n - 1]" using assms(1) by (simp add: permutation_of_def)
  have d: "distinct perm" using arg_cong[OF srt, of distinct] by simp
  have s: "set perm = {0..<n - 1}" using arg_cong[OF srt, of set] by simp
  have l: "length perm = n - 1" using arg_cong[OF srt, of length] by simp
  show "distinct (perm @ [n - 1])" using d s by simp
  show "set (perm @ [n - 1]) = {..<n}" using s assms(2) by auto
  show "length (perm @ [n - 1]) = n" using l assms(2) by simp
qed

lemma cycle_pairs:
  assumes "distinct cyc" "set cyc = {..<n}" "length cyc = n" "3 \<le> n"
  defines "C \<equiv> set (pairwise_cyclic cyc)"
  shows "finite C" "card C = n" "C \<subseteq> {..<n} \<times> {..<n}" "C \<inter> C\<inverse> = {}"
    "\<And>u. u < n \<Longrightarrow> card (C `` {u}) = 1" "\<And>u. u < n \<Longrightarrow> card (C\<inverse> `` {u}) = 1"
proof -
  have C: "C = set (zip cyc (rotate1 cyc))" by (simp add: C_def pairwise_cyclic_rotate1)
  show "finite C" by (simp add: C)
  have "distinct (zip cyc (rotate1 cyc))" using assms(1) by (rule distinct_zipI1)
  then show "card C = n" using assms(3) by (simp add: C distinct_card)
  show "C \<subseteq> {..<n} \<times> {..<n}"
  proof
    fix e assume eC: "e \<in> C"
    obtain u v where e: "e = (u, v)" by (cases e)
    have uv: "(u, v) \<in> set (zip cyc (rotate1 cyc))" using eC e C by simp
    have "u \<in> set cyc" using uv by (rule set_zip_leftD)
    moreover have "v \<in> set (rotate1 cyc)" using uv by (rule set_zip_rightD)
    ultimately show "e \<in> {..<n} \<times> {..<n}" using assms(2) e by simp
  qed
  show "C \<inter> C\<inverse> = {}" unfolding C using assms(1,3,4) by (intro cyc_no_both) simp_all
  show "card (C `` {u}) = 1" if "u < n" for u
    unfolding C using assms(1,2) that by (intro zip_Image_card) simp_all
  show "card (C\<inverse> `` {u}) = 1" if "u < n" for u
    unfolding C set_zip_converse using assms(1,2) that by (intro zip_Image_card) simp_all
qed

lemma filter_full:
  assumes "finite A" "card (Set.filter P A) = card A"
  shows "Set.filter P A = A"
  using assms by (intro card_subset_eq) auto

lemma cycles_union_step:
  assumes inv: "cycles_union n k E" and n: "3 \<le> n" and C: "C = set (pairwise_cyclic cyc)"
    and cyc: "distinct cyc" "set cyc = {..<n}" "length cyc = n"
    and acc: "card (Set.filter (\<lambda>(u, v). (u, v) \<notin> E \<and> (v, u) \<notin> E) C) = n"
  shows "Set.filter (\<lambda>(u, v). (u, v) \<notin> E \<and> (v, u) \<notin> E) C = C"
    and "cycles_union n (Suc k) (E \<union> C)"
proof -
  note cp = cycle_pairs[OF cyc n, folded C]
  show full: "Set.filter (\<lambda>(u, v). (u, v) \<notin> E \<and> (v, u) \<notin> E) C = C"
    using cp(1,2) acc by (intro filter_full) simp_all
  have dis1: "E \<inter> C = {}" and dis2: "E\<inverse> \<inter> C = {}"
    using full by auto
  have dis3: "E \<inter> C\<inverse> = {}" using dis2 by auto
  from inv have fin: "finite E" and sub: "E \<subseteq> {..<n} \<times> {..<n}" and asym: "E \<inter> E\<inverse> = {}"
    and cardE: "card E = k * n"
    and deg: "\<And>u. u < n \<Longrightarrow> card (E `` {u}) = k" "\<And>u. u < n \<Longrightarrow> card (E\<inverse> `` {u}) = k"
    by (auto simp: cycles_union_def)
  have a1: "(E \<union> C) \<inter> (E \<union> C)\<inverse> = {}"
    using asym cp(4) dis2 dis3 by auto
  have a2: "card (E \<union> C) = Suc k * n"
    using card_Un_disjoint[OF fin cp(1) dis1] cardE cp(2) by simp
  have a3: "card ((E \<union> C) `` {u}) = Suc k" if "u < n" for u
  proof -
    have "(E \<union> C) `` {u} = E `` {u} \<union> C `` {u}" by auto
    moreover have "E `` {u} \<inter> C `` {u} = {}" using dis1 by auto
    moreover have "finite (E `` {u})" "finite (C `` {u})"
      using fin cp(1) by (auto intro: finite_Image)
    ultimately show ?thesis using deg(1)[OF that] cp(5)[OF that]
      by (simp add: card_Un_disjoint)
  qed
  have a4: "card ((E \<union> C)\<inverse> `` {u}) = Suc k" if "u < n" for u
  proof -
    have "(E \<union> C)\<inverse> `` {u} = E\<inverse> `` {u} \<union> C\<inverse> `` {u}" by auto
    moreover have "E\<inverse> `` {u} \<inter> C\<inverse> `` {u} = {}" using dis1 by auto
    moreover have "finite (E\<inverse> `` {u})" "finite (C\<inverse> `` {u})"
      using fin cp(1) by (auto intro: finite_Image)
    ultimately show ?thesis using deg(2)[OF that] cp(6)[OF that]
      by (simp add: card_Un_disjoint)
  qed
  have a5: "finite (E \<union> C)" using fin cp(1) by simp
  have a6: "E \<union> C \<subseteq> {..<n} \<times> {..<n}" using sub cp(3) by blast
  show "cycles_union n (Suc k) (E \<union> C)"
    unfolding cycles_union_def using a1 a2 a3 a4 a5 a6 by blast
qed

lemma cycles_union_card: "cycles_union n k E \<Longrightarrow> card E = k * n"
  by (simp add: cycles_union_def)

lemma attempt_cycle_inv:
  assumes "3 \<le> n" "permutation_of (n - 1) perm" "cycles_union n i (snd st)"
  shows "cycles_union n i (snd (attempt_cycle n st perm))
       \<or> cycles_union n (Suc i) (snd (attempt_cycle n st perm))"
proof -
  obtain cs E where st: "st = (cs, E)" by (cases st)
  let ?cyc = "perm @ [n - 1]"
  let ?C = "set (pairwise_cyclic ?cyc)"
  let ?new = "Set.filter (\<lambda>(u, v). (u, v) \<notin> E \<and> (v, u) \<notin> E) ?C"
  have cyc: "distinct ?cyc" "set ?cyc = {..<n}" "length ?cyc = n"
    using cycle_of_perm[OF assms(2)] assms(1) by simp_all
  have inv: "cycles_union n i E" using assms(3) st by simp
  show ?thesis
  proof (cases "card ?new = n")
    case True
    from cycles_union_step[OF inv assms(1) refl cyc True]
    have "cycles_union n (Suc i) (E \<union> ?new)" by simp
    moreover have "snd (attempt_cycle n st perm) = E \<union> ?new"
      using True by (simp add: attempt_cycle_def st Let_def)
    ultimately show ?thesis by simp
  next
    case False
    then have "snd (attempt_cycle n st perm) = E"
      by (simp add: attempt_cycle_def st Let_def)
    then show ?thesis using inv by simp
  qed
qed

lemma while_cycle_inv:
  assumes "3 \<le> n" "\<forall>p \<in> set rng. permutation_of (n - 1) p"
    "cycles_union n i (snd st) \<or> cycles_union n (Suc i) (snd st)"
    "while_cycle n i it st rng = Some (Inr st', rng')"
  shows "cycles_union n (Suc i) (snd st')"
  using assms
proof (induction rng arbitrary: it st)
  case Nil
  then have "card (snd st) = (i + 1) * n" by (simp split: if_splits)
  moreover have "st' = st" using Nil by (simp split: if_splits)
  ultimately show ?case using Nil.prems(1,3) by (auto dest: cycles_union_card)
next
  case (Cons perm rng)
  show ?case
  proof (cases "card (snd st) = (i + 1) * n")
    case True
    moreover have "st' = st" using Cons.prems(4) True by simp
    ultimately show ?thesis using Cons.prems(1,3) by (auto dest: cycles_union_card)
  next
    case False
    then have inv: "cycles_union n i (snd st)"
      using Cons.prems(3) by (auto dest: cycles_union_card)
    have perm: "permutation_of (n - 1) perm" using Cons.prems(2) by simp
    have rec: "while_cycle n i (it - 1) (attempt_cycle n st perm) rng = Some (Inr st', rng')"
      using Cons.prems(4) False by (simp add: Let_def split: if_splits)
    show ?thesis
      using Cons.IH[OF Cons.prems(1) _ attempt_cycle_inv[OF Cons.prems(1) perm inv] rec]
        Cons.prems(2) by simp
  qed
qed

lemma while_cycle_consumes:
  "while_cycle n i it st rng = Some (r, rng') \<Longrightarrow> \<exists>used. rng = used @ rng'"
proof (induction rng arbitrary: it st)
  case Nil
  then show ?case by (simp split: if_splits)
next
  case (Cons perm rng)
  show ?case
  proof (cases "card (snd st) = (i + 1) * n")
    case True
    then show ?thesis using Cons.prems by simp
  next
    case False
    show ?thesis
    proof (cases "it - 1 = 0")
      case True
      then have "rng' = rng" using Cons.prems False by (simp add: Let_def)
      then show ?thesis by (intro exI[of _ "[perm]"]) simp
    next
      case nz: False
      then have "while_cycle n i (it - 1) (attempt_cycle n st perm) rng = Some (r, rng')"
        using Cons.prems False by (simp add: Let_def)
      from Cons.IH[OF this] obtain used where "rng = used @ rng'" ..
      then show ?thesis by (intro exI[of _ "perm # used"]) simp
    qed
  qed
qed

lemma while_cycle_consumes_one:
  assumes "while_cycle n i it st rng = Some (r, rng')" "card (snd st) \<noteq> (i + 1) * n"
  shows "length rng' < length rng"
proof (cases rng)
  case Nil
  then show ?thesis using assms by simp
next
  case (Cons perm rest)
  show ?thesis
  proof (cases "it - 1 = 0")
    case True
    then show ?thesis using assms Cons by (simp add: Let_def)
  next
    case False
    then have "while_cycle n i (it - 1) (attempt_cycle n st perm) rest = Some (r, rng')"
      using assms Cons by (simp add: Let_def)
    from while_cycle_consumes[OF this] show ?thesis using Cons by auto
  qed
qed

lemma for_cycles_consumes:
  "for_cycles n mt js st rng = Some (r, rng') \<Longrightarrow> \<exists>used. rng = used @ rng'"
proof (induction js arbitrary: st rng)
  case Nil
  then show ?case by simp
next
  case (Cons j js)
  from Cons.prems consider (1) st1 rng1 where
    "while_cycle n j mt st rng = Some (Inr st1, rng1)"
    "for_cycles n mt js st1 rng1 = Some (r, rng')"
  | (2) e where "while_cycle n j mt st rng = Some (Inl e, rng')" "r = Inl e"
    by (auto split: option.splits sum.splits prod.splits)
  then show ?case
  proof cases
    case 1
    from while_cycle_consumes[OF 1(1)] obtain u1 where "rng = u1 @ rng1" ..
    moreover from Cons.IH[OF 1(2)] obtain u2 where "rng1 = u2 @ rng'" ..
    ultimately show ?thesis by simp
  next
    case 2
    from 2(1) show ?thesis by (rule while_cycle_consumes)
  qed
qed

lemma for_cycles_inv:
  assumes "3 \<le> n" "\<forall>p \<in> set rng. permutation_of (n - 1) p"
    "cycles_union n k (snd st)"
    "for_cycles n mt [k..<m] st rng = Some (Inr st', rng')" "k \<le> m"
  shows "cycles_union n m (snd st')"
  using assms
proof (induction "m - k" arbitrary: k st rng)
  case 0
  then show ?case by simp
next
  case (Suc x)
  then have km: "k < m" by simp
  then have upt: "[k..<m] = k # [Suc k..<m]" by (simp add: upt_conv_Cons)
  from Suc.prems(4) obtain st1 rng1 where
    w: "while_cycle n k mt st rng = Some (Inr st1, rng1)"
    and f: "for_cycles n mt [Suc k..<m] st1 rng1 = Some (Inr st', rng')"
    unfolding upt by (auto split: option.splits sum.splits prod.splits)
  have inv1: "cycles_union n (Suc k) (snd st1)"
    using while_cycle_inv[OF Suc.prems(1,2) _ w] Suc.prems(3) by simp
  from while_cycle_consumes[OF w] obtain used where "rng = used @ rng1" ..
  then have perms1: "\<forall>p \<in> set rng1. permutation_of (n - 1) p"
    using Suc.prems(2) by simp
  have "x = m - Suc k" using Suc.hyps(2) by simp
  from Suc.hyps(1)[OF this Suc.prems(1) perms1 inv1 f] km show ?case by simp
qed

lemma cycles_union_empty: "cycles_union n 0 {}"
  by (simp add: cycles_union_def)

lemma maybe_regular_expander_Inr:
  assumes "maybe_regular_expander n d mt rng = Some (Inr G, rng')"
    "\<forall>p \<in> set rng. permutation_of (nat n - 1) p"
  obtains E where "3 \<le> n" "2 \<le> d" "d mod 2 = 0" "d \<le> n - 1"
    "cycles_union (nat n) (nat (d div 2)) E" "G = add_edges_from (empty_graph (nat n)) E"
proof -
  from assms(1) have v: "1 \<le> n" "2 \<le> d" "d mod 2 = 0" "d \<le> n - 1"
    by (auto simp: maybe_regular_expander_def split: if_splits)
  then have n3: "3 \<le> n" by simp
  from assms(1) v n3 obtain st where
    f: "for_cycles (nat n) mt [0..<nat (d div 2)] ([], {}) rng = Some (Inr st, rng')"
    and G: "G = add_edges_from (empty_graph (nat n)) (snd st)"
    by (auto simp: maybe_regular_expander_def Let_def split: option.splits sum.splits prod.splits)
  have "cycles_union (nat n) (nat (d div 2)) (snd st)"
    using for_cycles_inv[OF _ assms(2) _ f] n3 cycles_union_empty[of "nat n"] by simp
  then show thesis by (rule that[OF n3 v(2,3,4) _ G])
qed

lemma maybe_regular_expander_consumes:
  assumes "maybe_regular_expander n d mt rng = Some (r, rng')"
  shows "\<exists>used. rng = used @ rng'"
proof -
  consider (err) "rng' = rng"
    | (run) r' where "for_cycles (nat n) mt [0..<nat (d div 2)] ([], {}) rng = Some (r', rng')"
    using assms
    by (auto simp: maybe_regular_expander_def Let_def split: if_splits option.splits sum.splits prod.splits)
  then show ?thesis
  proof cases
    case err
    then show ?thesis by simp
  next
    case run
    then show ?thesis by (rule for_cycles_consumes)
  qed
qed

lemma maybe_regular_expander_consumes_one:
  assumes "maybe_regular_expander n d mt rng = Some (Inr G, rng')"
  shows "length rng' < length rng"
proof -
  from assms have v: "1 \<le> n" "2 \<le> d" "d mod 2 = 0" "d \<le> n - 1"
    by (auto simp: maybe_regular_expander_def split: if_splits)
  then have n3: "3 \<le> n" by simp
  from assms v n3 obtain st where
    f: "for_cycles (nat n) mt [0..<nat (d div 2)] ([], {}) rng = Some (Inr st, rng')"
    by (auto simp: maybe_regular_expander_def Let_def split: option.splits sum.splits prod.splits)
  have "0 < nat (d div 2)" using v by simp
  then have upt: "[0..<nat (d div 2)] = 0 # [Suc 0..<nat (d div 2)]"
    by (simp add: upt_conv_Cons)
  from f obtain st1 rng1 where
    w: "while_cycle (nat n) 0 mt ([], {}) rng = Some (Inr st1, rng1)"
    and f1: "for_cycles (nat n) mt [Suc 0..<nat (d div 2)] st1 rng1 = Some (Inr st, rng')"
    unfolding upt by (auto split: option.splits sum.splits prod.splits)
  have "length rng1 < length rng"
    using while_cycle_consumes_one[OF w] n3 by simp
  moreover from for_cycles_consumes[OF f1] have "length rng' \<le> length rng1" by auto
  ultimately show ?thesis by simp
qed

lemma union_graph:
  assumes "cycles_union n k E" "G = add_edges_from (empty_graph n) E"
  shows "nodes G = {..<n}" "adj G = E \<union> E\<inverse>" "\<And>u. u < n \<Longrightarrow> degree G u = 2 * k"
    "\<And>u v. (u, v) \<in> adj G \<Longrightarrow> u \<noteq> v" "number_of_edges G = k * n"
proof -
  from assms(1) have fin: "finite E" and sub: "E \<subseteq> {..<n} \<times> {..<n}" and asym: "E \<inter> E\<inverse> = {}"
    and cardE: "card E = k * n"
    and deg: "\<And>u. u < n \<Longrightarrow> card (E `` {u}) = k" "\<And>u. u < n \<Longrightarrow> card (E\<inverse> `` {u}) = k"
    by (auto simp: cycles_union_def)
  show adj: "adj G = E \<union> E\<inverse>" by (simp add: assms(2) add_edges_from_def empty_graph_def)
  have "fst ` E \<subseteq> {..<n}" "snd ` E \<subseteq> {..<n}" using sub by auto
  then show "nodes G = {..<n}"
    by (auto simp: assms(2) add_edges_from_def empty_graph_def)
  show irr: "u \<noteq> v" if "(u, v) \<in> adj G" for u v
    using that asym unfolding adj by auto
  show "degree G u = 2 * k" if "u < n" for u
  proof -
    have "(E \<union> E\<inverse>) `` {u} = E `` {u} \<union> E\<inverse> `` {u}" by auto
    moreover have "E `` {u} \<inter> E\<inverse> `` {u} = {}" using asym by auto
    moreover have "finite (E `` {u})" "finite (E\<inverse> `` {u})"
      using fin by (auto intro: finite_Image)
    ultimately have "card (adj G `` {u}) = 2 * k"
      using deg(1)[OF that] deg(2)[OF that] by (simp add: adj card_Un_disjoint)
    moreover have "(u, u) \<notin> adj G" using irr by blast
    ultimately show ?thesis by (simp add: degree_def)
  qed
  define f :: "nat \<times> nat \<Rightarrow> nat \<times> nat" where "f = (\<lambda>(u, v). (min u v, max u v))"
  have "Set.filter (\<lambda>(u, v). u \<le> v) (E \<union> E\<inverse>) = f ` E"
  proof (intro set_eqI iffI)
    fix e assume e: "e \<in> Set.filter (\<lambda>(u, v). u \<le> v) (E \<union> E\<inverse>)"
    obtain a b where ab: "e = (a, b)" by (cases e)
    from e ab have "a \<le> b" and "(a, b) \<in> E \<or> (b, a) \<in> E" by auto
    then show "e \<in> f ` E"
    proof (elim disjE)
      assume "(a, b) \<in> E"
      moreover have "f (a, b) = e" using \<open>a \<le> b\<close> ab by (simp add: f_def)
      ultimately show ?thesis by (metis image_eqI)
    next
      assume "(b, a) \<in> E"
      moreover have "f (b, a) = e" using \<open>a \<le> b\<close> ab by (simp add: f_def)
      ultimately show ?thesis by (metis image_eqI)
    qed
  next
    fix e assume "e \<in> f ` E"
    then obtain u v where uv: "(u, v) \<in> E" "e = f (u, v)" by auto
    then show "e \<in> Set.filter (\<lambda>(u, v). u \<le> v) (E \<union> E\<inverse>)"
      by (cases "u \<le> v") (auto simp: f_def)
  qed
  moreover have "inj_on f E"
  proof (rule inj_onI)
    fix p q assume pq: "p \<in> E" "q \<in> E" "f p = f q"
    obtain a b where p: "p = (a, b)" by (cases p)
    obtain c d where q: "q = (c, d)" by (cases q)
    have "(a = c \<and> b = d) \<or> (a = d \<and> b = c)"
      using pq(3) unfolding p q f_def by (auto simp: min_def max_def split: if_splits)
    moreover have "\<not> (a = d \<and> b = c)" using pq(1,2) asym unfolding p q by auto
    ultimately show "p = q" by (simp add: p q)
  qed
  ultimately show "number_of_edges G = k * n"
    by (simp add: number_of_edges_def adj card_image cardE del: Set.filter_eq)
qed

section \<open>is\_regular\_expander\<close>

text \<open>
  The eigenvalue solver is a numerical library routine and a parameter of the model.
  \<^verbatim>\<open>eigsh(A, which="LM", k=2, return_eigenvectors=False)\<close> is called with no
  start vector, so it starts from a random vector that does not come from \<open>seed\<close>:
  two calls on the same graph need not give the same numbers. It can also raise
  (on a matrix of order at most 2, on a matrix of zeros, or when it does not
  converge). So \<open>eigsh\<close> here is the answer of the solver on this one call, as a
  function of the graph it is given: an error, or the two numbers it returns for
  the eigenvalues of largest magnitude; \<open>lambda2\<close> is their minimum. The numbers
  returned are floating-point numbers, read as the reals they are. The bound is
  computed as the source writes it, \<^verbatim>\<open>2 ** np.sqrt(d - 1) + epsilon\<close>. For
  \<open>d = 0\<close> the square root is not a number and the comparison with it is false,
  which the conjunct \<open>0 \<le> d - 1\<close> writes out.
\<close>

definition is_regular_expander ::
  "(graph \<Rightarrow> error + real \<times> real) \<Rightarrow> graph \<Rightarrow> real \<Rightarrow> error + bool" where
  "is_regular_expander eigsh G epsilon =
     (if epsilon < 0 then Inl (NetworkXError ''epsilon must be non negative'')
      else
        (case is_regular G of
           Inl e \<Rightarrow> Inl e
         | Inr False \<Rightarrow> Inr False
         | Inr True \<Rightarrow>
             (let d = int (degree G (Min (nodes G))) in
              case eigsh G of
                Inl e \<Rightarrow> Inl e
              | Inr lams \<Rightarrow>
                  (let lambda2 = min (fst lams) (snd lams)
                   in Inr (0 \<le> d - 1
                           \<and> \<bar>lambda2\<bar> < 2 powr sqrt (real_of_int (d - 1)) + epsilon)))))"

section \<open>random\_regular\_expander\_graph\<close>

text \<open>
  The \<^verbatim>\<open>while not is_regular_expander(G, epsilon=epsilon)\<close> loop. Every pass
  builds a new candidate, which takes at least one draw, so the loop ends on every
  finite list of draws. The spectral checks of a run are numbered from 0, and
  \<open>eigsh k\<close> is the answer of the solver at check \<open>k\<close>.
\<close>

function retry_loop ::
  "(nat \<Rightarrow> graph \<Rightarrow> error + real \<times> real) \<Rightarrow> int \<Rightarrow> int \<Rightarrow> real \<Rightarrow> int \<Rightarrow> int \<Rightarrow> nat \<Rightarrow> graph
     \<Rightarrow> rng \<Rightarrow> graph run" where
  "retry_loop eigsh n d epsilon max_tries iterations k G rng =
     (case is_regular_expander (eigsh k) G epsilon of
        Inl e \<Rightarrow> Some (Inl e, rng)
      | Inr True \<Rightarrow> Some (Inr G, rng)
      | Inr False \<Rightarrow>
          (case maybe_regular_expander n d max_tries rng of
             None \<Rightarrow> None
           | Some (Inl e, rng') \<Rightarrow> Some (Inl e, rng')
           | Some (Inr G', rng') \<Rightarrow>
               if iterations - 1 = 0
               then Some (Inl (NetworkXError
                      ''Too many iterations in random_regular_expander_graph''), rng')
               else retry_loop eigsh n d epsilon max_tries (iterations - 1) (k + 1) G' rng'))"
  by pat_completeness auto
termination
  by (relation "measure (\<lambda>(eigsh, n, d, epsilon, max_tries, iterations, k, G, rng). length rng)")
     (auto dest: maybe_regular_expander_consumes_one)

declare retry_loop.simps [simp del]

definition random_regular_expander_graph ::
  "(nat \<Rightarrow> graph \<Rightarrow> error + real \<times> real) \<Rightarrow> int \<Rightarrow> int \<Rightarrow> real \<Rightarrow> int \<Rightarrow> rng \<Rightarrow> graph run" where
  "random_regular_expander_graph eigsh n d epsilon max_tries rng =
     (case maybe_regular_expander n d max_tries rng of
        None \<Rightarrow> None
      | Some (Inl e, rng') \<Rightarrow> Some (Inl e, rng')
      | Some (Inr G, rng') \<Rightarrow> retry_loop eigsh n d epsilon max_tries max_tries 0 G rng')"

section \<open>The lifting class and the registry\<close>

text \<open>
  \<open>ExpanderGraphLifting.__init__\<close>: the constructor of the base class runs first
  (its outcome is the parameter \<open>super_init\<close>, the base class being defined
  elsewhere), then the \<^verbatim>\<open>assert\<close> on the parity of \<open>node_degree\<close>.
\<close>

record expander_graph_lifting =
  node_degree :: int

definition ExpanderGraphLifting_init :: "error + unit \<Rightarrow> int \<Rightarrow> error + expander_graph_lifting" where
  "ExpanderGraphLifting_init super_init node_degree_arg =
     (case super_init of
        Inl e \<Rightarrow> Inl e
      | Inr _ \<Rightarrow>
          if node_degree_arg mod 2 = 0 then Inr \<lparr>node_degree = node_degree_arg\<rparr>
          else Inl (AssertionError ''Only even node degree are supported.''))"

text \<open>
  The transform classes of the project and the dictionary \<open>TRANSFORMS\<close> from names
  to classes, entry by entry.
\<close>

datatype transform_class =
    HypergraphKHopLifting
  | HypergraphKNearestNeighborsLifting
  | SimplicialNeighborhoodLifting
  | SimplicialCliqueLifting
  | CellCyclesLifting
  | SumLifting
  | IdentityTransform
  | InfereKNNConnectivity
  | InfereRadiusConnectivity
  | NodeDegrees
  | OneHotDegreeFeatures
  | EqualGausFeatures
  | NodeFeaturesToFloat
  | CalculateSimplicialCurvature
  | KeepOnlyConnectedComponent
  | ExpanderGraphLifting

definition TRANSFORMS :: "string \<rightharpoonup> transform_class" where
  "TRANSFORMS = map_of
     [(''HypergraphKHopLifting'', HypergraphKHopLifting),
      (''HypergraphKNearestNeighborsLifting'', HypergraphKNearestNeighborsLifting),
      (''SimplicialNeighborhoodLifting'', SimplicialNeighborhoodLifting),
      (''SimplicialCliqueLifting'', SimplicialCliqueLifting),
      (''CellCyclesLifting'', CellCyclesLifting),
      (''SumLifting'', SumLifting),
      (''Identity'', IdentityTransform),
      (''InfereKNNConnectivity'', InfereKNNConnectivity),
      (''InfereRadiusConnectivity'', InfereRadiusConnectivity),
      (''NodeDegrees'', NodeDegrees),
      (''OneHotDegreeFeatures'', OneHotDegreeFeatures),
      (''EqualGausFeatures'', EqualGausFeatures),
      (''NodeFeaturesToFloat'', NodeFeaturesToFloat),
      (''CalculateSimplicialCurvature'', CalculateSimplicialCurvature),
      (''KeepOnlyConnectedComponent'', KeepOnlyConnectedComponent)]"

text \<open>
  \<open>DataTransform.__init__\<close>: the name is stored in the keyword arguments, then
  looked up in \<open>TRANSFORMS\<close> (a missing key raises \<open>KeyError\<close>) and the class
  found is instantiated with the keyword arguments; \<open>instantiate\<close> stands for the
  constructors of the classes.
\<close>

datatype pyval = PyNone | PyStr string | PyInt int

record 't data_transform =
  parameters :: "string \<rightharpoonup> pyval"
  transform :: "'t option"

definition DataTransform_init ::
  "(transform_class \<Rightarrow> (string \<rightharpoonup> pyval) \<Rightarrow> error + 't) \<Rightarrow> string option \<Rightarrow> (string \<rightharpoonup> pyval)
     \<Rightarrow> error + 't data_transform" where
  "DataTransform_init instantiate transform_name kwargs =
     (let kwargs = kwargs(''transform_name'' \<mapsto>
                     (case transform_name of None \<Rightarrow> PyNone | Some s \<Rightarrow> PyStr s))
      in case transform_name of
           None \<Rightarrow> Inr \<lparr>parameters = kwargs, transform = None\<rparr>
         | Some name \<Rightarrow>
             (case TRANSFORMS name of
                None \<Rightarrow> Inl (KeyError name)
              | Some cls \<Rightarrow>
                  (case instantiate cls kwargs of
                     Inl e \<Rightarrow> Inl e
                   | Inr t \<Rightarrow> Inr \<lparr>parameters = kwargs, transform = Some t\<rparr>)))"

section \<open>lift\_topology\<close>

text \<open>
  The decorator \<^verbatim>\<open>np_random_state("seed")\<close>: with \<^verbatim>\<open>seed=None\<close> the function
  runs on the generator shared by the whole process (\<open>global_rng\<close>) and leaves it
  advanced; with a generator of its own it leaves the shared one as it was.
\<close>

definition np_random_state :: "(rng \<Rightarrow> 'a run) \<Rightarrow> rng option \<Rightarrow> rng \<Rightarrow> 'a run" where
  "np_random_state f seed global_rng =
     (case seed of
        None \<Rightarrow> f global_rng
      | Some r \<Rightarrow> (case f r of None \<Rightarrow> None | Some (res, r') \<Rightarrow> Some (res, global_rng)))"

text \<open>
  The edge list \<^verbatim>\<open>G.edges()\<close> of the graph library. The nodes are visited in
  the order of the node list, which for the graphs of the generator is
  \<open>0, 1, .., n - 1\<close>; at the node \<open>u\<close> the neighbours \<open>v\<close> that have not been
  visited before give the edges \<open>(u, v)\<close>, in the order in which the adjacency
  dictionary of \<open>u\<close> holds them. That order is the order in which the edges were
  entered, which follows the iteration order of the Python set \<open>edges\<close>; it is a
  parameter of the model: \<open>position G u v\<close> is the place of \<open>v\<close> in the adjacency
  dictionary of \<open>u\<close>, and the neighbours are listed by increasing place.
\<close>

definition neighbors :: "(graph \<Rightarrow> nat \<Rightarrow> nat \<Rightarrow> nat) \<Rightarrow> graph \<Rightarrow> nat \<Rightarrow> nat list" where
  "neighbors position G u = sort_key (position G u) (sorted_list_of_set (adj G `` {u}))"

definition edge_list :: "(graph \<Rightarrow> nat \<Rightarrow> nat \<Rightarrow> nat) \<Rightarrow> graph \<Rightarrow> (nat \<times> nat) list" where
  "edge_list position G =
     concat (map (\<lambda>u. map (\<lambda>v. (u, v)) (filter (\<lambda>v. u \<le> v) (neighbors position G u)))
                 (sorted_list_of_set (nodes G)))"

text \<open>
  \<^verbatim>\<open>networkx.incidence_matrix(G)\<close>, read as a list of coordinates. Rows follow
  the node list of \<open>G\<close> (the row of a node is its rank among the nodes), columns
  the edge list; the edge \<open>ei = (u, v)\<close> puts a 1 in the rows of \<open>u\<close> and \<open>v\<close> of
  column \<open>ei\<close>, a self-loop leaves its column empty.
\<close>

definition node_index :: "graph \<Rightarrow> nat \<Rightarrow> nat" where
  "node_index G u = card (Set.filter (\<lambda>w. w < u) (nodes G))"

record coo_matrix =
  coo_row :: "nat list"
  coo_col :: "nat list"
  coo_data :: "real list"

definition incidence_entries :: "(graph \<Rightarrow> nat \<Rightarrow> nat \<Rightarrow> nat) \<Rightarrow> graph \<Rightarrow> (nat \<times> nat) list" where
  "incidence_entries position G =
     concat (map (\<lambda>(ei, (u, v)). if u = v then [] else [(node_index G u, ei), (node_index G v, ei)])
                 (enumerate 0 (edge_list position G)))"

definition incidence_matrix :: "(graph \<Rightarrow> nat \<Rightarrow> nat \<Rightarrow> nat) \<Rightarrow> graph \<Rightarrow> coo_matrix" where
  "incidence_matrix position G =
     (let entries = incidence_entries position G
      in \<lparr>coo_row = map fst entries, coo_col = map snd entries, coo_data = map (\<lambda>e. 1) entries\<rparr>)"

text \<open>
  \<^verbatim>\<open>torch.sparse_coo_tensor(indices, values)\<close> with no size given: each dimension
  is the largest index in it plus one, and 0 when there is no entry.
\<close>

record sparse_coo_tensor =
  tensor_indices :: "(nat \<times> nat) list"
  tensor_values :: "real list"
  tensor_size :: "nat \<times> nat"

definition torch_sparse_coo_tensor :: "nat list \<times> nat list \<Rightarrow> real list \<Rightarrow> sparse_coo_tensor" where
  "torch_sparse_coo_tensor coo_indices coo_values =
     \<lparr>tensor_indices = zip (fst coo_indices) (snd coo_indices),
      tensor_values = coo_values,
      tensor_size = (if fst coo_indices = [] \<or> snd coo_indices = [] then (0, 0)
                     else (Max (set (fst coo_indices)) + 1, Max (set (snd coo_indices)) + 1))\<rparr>"

text \<open>
  \<open>ExpanderGraphLifting.lift_topology\<close>. The call of the generator names no seed,
  tolerance or number of tries, so their defaults hold: \<^verbatim>\<open>seed=None\<close>,
  \<^verbatim>\<open>epsilon=0\<close>, \<^verbatim>\<open>max_tries=100\<close>. Besides the object and the data, the
  model takes what the run reads from its surroundings: the places of the
  adjacency dictionaries, the answers of the eigenvalue solver and the state of the
  shared random generator.
\<close>

record 'x data =
  data_num_nodes :: int
  data_x :: 'x

record 'x lifted_topology =
  incidence_hyperedges :: sparse_coo_tensor
  num_hyperedges :: nat
  x_0 :: 'x

definition lift_topology ::
  "(graph \<Rightarrow> nat \<Rightarrow> nat \<Rightarrow> nat) \<Rightarrow> (nat \<Rightarrow> graph \<Rightarrow> error + real \<times> real)
     \<Rightarrow> expander_graph_lifting \<Rightarrow> 'x data \<Rightarrow> rng \<Rightarrow> 'x lifted_topology run" where
  "lift_topology position eigsh self data global_rng =
     (case np_random_state
             (random_regular_expander_graph eigsh (data_num_nodes data) (node_degree self) 0 100)
             None global_rng of
        None \<Rightarrow> None
      | Some (Inl e, global_rng') \<Rightarrow> Some (Inl e, global_rng')
      | Some (Inr expander_graph, global_rng') \<Rightarrow>
          (let incidence = incidence_matrix position expander_graph;
               coo_indices = (coo_row incidence, coo_col incidence);
               coo_values = coo_data incidence;
               incidence_tensor = torch_sparse_coo_tensor coo_indices coo_values
           in Some (Inr \<lparr>incidence_hyperedges = incidence_tensor,
                          num_hyperedges = snd (tensor_size incidence_tensor),
                          x_0 = data_x data\<rparr>, global_rng')))"

section \<open>Arithmetic of an even degree\<close>

lemma twice_half: "2 \<le> (d::int) \<Longrightarrow> d mod 2 = 0 \<Longrightarrow> 2 * nat (d div 2) = nat d"
  by (auto elim!: dvdE simp: mod_eq_0_iff_dvd nat_mult_distrib)

lemma half_times: "(d::int) mod 2 = 0 \<Longrightarrow> (d div 2) * n = n * d div 2"
  by (auto elim!: dvdE simp: mod_eq_0_iff_dvd)

section \<open>Runs on concrete draws\<close>

text \<open>
  Runs on five and on three nodes. For the cycle on five nodes the two eigenvalues
  of largest magnitude are 2 and \<open>-(1 + sqrt 5) / 2\<close>, about -1.618.
\<close>

lemma run_5_4:
  "maybe_regular_expander 5 4 100 [[0, 1, 2, 3], [0, 1, 2, 3], [1, 3, 0, 2]] =
     Some (Inr \<lparr>nodes = {0, 1, 2, 3, 4},
                adj = {(4, 1), (2, 4), (0, 2), (3, 0), (1, 3), (0, 1), (1, 2), (2, 3),
                       (3, 4), (4, 0), (0, 4), (4, 3), (3, 2), (2, 1), (1, 0), (3, 1),
                       (0, 3), (2, 0), (4, 2), (1, 4)}\<rparr>, [])"
  by code_simp

lemma run_3_2:
  "maybe_regular_expander 3 2 100 [[0, 1]] =
     Some (Inr \<lparr>nodes = {0, 1, 2}, adj = {(0, 1), (1, 2), (2, 0), (1, 0), (2, 1), (0, 2)}\<rparr>, [])"
  by code_simp

lemma str_int_1: "str_int 1 = ''1''"
  by code_simp

section \<open>Rejected arguments\<close>

text \<open>The message of a rejected call does not depend on the random source.\<close>

lemma maybe_regular_expander_invalid_all:
  assumes "d mod 2 \<noteq> 0 \<or> d < 2 \<or> n - 1 < d \<or> n < 1"
  shows "\<exists>msg. \<forall>rng. maybe_regular_expander n d max_tries rng
           = Some (Inl (NetworkXError msg), rng)"
proof (cases "n < 1")
  case True
  then show ?thesis by (simp add: maybe_regular_expander_def)
next
  case n: False
  show ?thesis
  proof (cases "d < 2")
    case True
    then show ?thesis using n by (simp add: maybe_regular_expander_def)
  next
    case d: False
    show ?thesis
    proof (cases "d mod 2 = 0")
      case False
      then show ?thesis using n d by (simp add: maybe_regular_expander_def)
    next
      case True
      then have "n - 1 < d" using assms n d by simp
      then show ?thesis using n d True by (simp add: maybe_regular_expander_def)
    qed
  qed
qed

lemma maybe_regular_expander_invalid:
  assumes "d mod 2 \<noteq> 0 \<or> d < 2 \<or> n - 1 < d \<or> n < 1"
  shows "\<exists>msg. maybe_regular_expander n d max_tries rng = Some (Inl (NetworkXError msg), rng)"
  using maybe_regular_expander_invalid_all[OF assms] by blast

section \<open>Two runs on five nodes with degree 2\<close>

lemma run_5_2_a:
  "maybe_regular_expander 5 2 100 [[0, 1, 2, 3]] =
     Some (Inr \<lparr>nodes = {0, 1, 2, 3, 4},
                adj = {(0, 1), (1, 2), (2, 3), (3, 4), (4, 0),
                       (1, 0), (2, 1), (3, 2), (4, 3), (0, 4)}\<rparr>, [])"
  by code_simp

lemma run_5_2_b:
  "maybe_regular_expander 5 2 100 [[1, 0, 2, 3]] =
     Some (Inr \<lparr>nodes = {0, 1, 2, 3, 4},
                adj = {(1, 0), (0, 2), (2, 3), (3, 4), (4, 1),
                       (0, 1), (2, 0), (3, 2), (4, 3), (1, 4)}\<rparr>, [])"
  by code_simp

lemma cycle_accepted:
  assumes "is_regular G = Inr True" "degree G (Min (nodes G)) = 2"
  shows "is_regular_expander (\<lambda>G. Inr (2, - 1.618)) G 0 = Inr True"
  using assms by (simp add: is_regular_expander_def)

lemma regular_5_2_a:
  "is_regular \<lparr>nodes = {0, 1, 2, 3, 4},
                adj = {(0, 1), (1, 2), (2, 3), (3, 4), (4, 0),
                       (1, 0), (2, 1), (3, 2), (4, 3), (0, 4)}\<rparr> = Inr True"
  "degree \<lparr>nodes = {0, 1, 2, 3, 4},
                adj = {(0, 1), (1, 2), (2, 3), (3, 4), (4, 0),
                       (1, 0), (2, 1), (3, 2), (4, 3), (0, 4)}\<rparr>
      (Min (nodes \<lparr>nodes = {0, 1, 2, 3, 4},
                adj = {(0, 1), (1, 2), (2, 3), (3, 4), (4, 0),
                       (1, 0), (2, 1), (3, 2), (4, 3), (0, 4)}\<rparr>)) = 2"
  by code_simp+

lemma regular_5_2_b:
  "is_regular \<lparr>nodes = {0, 1, 2, 3, 4},
                adj = {(1, 0), (0, 2), (2, 3), (3, 4), (4, 1),
                       (0, 1), (2, 0), (3, 2), (4, 3), (1, 4)}\<rparr> = Inr True"
  "degree \<lparr>nodes = {0, 1, 2, 3, 4},
                adj = {(1, 0), (0, 2), (2, 3), (3, 4), (4, 1),
                       (0, 1), (2, 0), (3, 2), (4, 3), (1, 4)}\<rparr>
      (Min (nodes \<lparr>nodes = {0, 1, 2, 3, 4},
                adj = {(1, 0), (0, 2), (2, 3), (3, 4), (4, 1),
                       (0, 1), (2, 0), (3, 2), (4, 3), (1, 4)}\<rparr>)) = 2"
  by code_simp+

lemma expander_5_2_a:
  "random_regular_expander_graph (\<lambda>k G. Inr (2, - 1.618)) 5 2 0 100 [[0, 1, 2, 3]] =
     Some (Inr \<lparr>nodes = {0, 1, 2, 3, 4},
                adj = {(0, 1), (1, 2), (2, 3), (3, 4), (4, 0),
                       (1, 0), (2, 1), (3, 2), (4, 3), (0, 4)}\<rparr>, [])"
  by (simp only: random_regular_expander_graph_def run_5_2_a option.case prod.case sum.case
        retry_loop.simps[of _ _ _ _ _ _ _ _ "[]"] cycle_accepted[OF regular_5_2_a] bool.case)

lemma expander_5_2_b:
  "random_regular_expander_graph (\<lambda>k G. Inr (2, - 1.618)) 5 2 0 100 [[1, 0, 2, 3]] =
     Some (Inr \<lparr>nodes = {0, 1, 2, 3, 4},
                adj = {(1, 0), (0, 2), (2, 3), (3, 4), (4, 1),
                       (0, 1), (2, 0), (3, 2), (4, 3), (1, 4)}\<rparr>, [])"
  by (simp only: random_regular_expander_graph_def run_5_2_b option.case prod.case sum.case
        retry_loop.simps[of _ _ _ _ _ _ _ _ "[]"] cycle_accepted[OF regular_5_2_b] bool.case)

section \<open>A negative tolerance\<close>

lemma retry_loop_negative_epsilon:
  "epsilon < 0 \<Longrightarrow> retry_loop eigsh n d epsilon max_tries iterations k G rng
     = Some (Inl (NetworkXError ''epsilon must be non negative''), rng)"
  by (subst retry_loop.simps) (simp add: is_regular_expander_def)

lemma random_regular_expander_graph_negative_epsilon:
  assumes "epsilon < 0"
  shows "random_regular_expander_graph eigsh n d epsilon max_tries rng =
     (case maybe_regular_expander n d max_tries rng of
        None \<Rightarrow> None
      | Some (Inl e, rng') \<Rightarrow> Some (Inl e, rng')
      | Some (Inr G, rng') \<Rightarrow> Some (Inl (NetworkXError ''epsilon must be non negative''), rng'))"
  using assms
  by (simp add: random_regular_expander_graph_def retry_loop_negative_epsilon
      split: option.splits sum.splits prod.splits)

lemma run_3_2_negative_epsilon:
  "random_regular_expander_graph (\<lambda>k G. Inr (0, 0)) 3 2 (- 1) 100 [[0, 1]]
      = Some (Inl (NetworkXError ''epsilon must be non negative''), [])"
  by (simp only: random_regular_expander_graph_negative_epsilon[of "- 1", simplified]
        run_3_2 option.case prod.case sum.case)

section \<open>The registry\<close>

lemma TRANSFORMS_expander: "TRANSFORMS ''ExpanderGraphLifting'' = None"
  by (simp add: TRANSFORMS_def)

lemma TRANSFORMS_no_expander: "TRANSFORMS name \<noteq> Some ExpanderGraphLifting"
  by (simp add: TRANSFORMS_def)

section \<open>The graph of a successful run and its incidence matrix\<close>

text \<open>
  A graph that leaves the retry loop is the candidate it was given or a graph that
  \<open>maybe_regular_expander\<close> returned, so it carries the invariant; its edge list
  then has \<open>k * n\<close> edges with two distinct ends each.
\<close>

lemma retry_loop_Inr:
  assumes "retry_loop eigsh n d epsilon mt it k G rng = Some (Inr G', rng')"
    "\<forall>p \<in> set rng. permutation_of (nat n - 1) p"
  shows "G' = G \<or> (\<exists>rng0 rng1. maybe_regular_expander n d mt rng0 = Some (Inr G', rng1)
                     \<and> (\<forall>p \<in> set rng0. permutation_of (nat n - 1) p))"
  using assms
proof (induction eigsh n d epsilon mt it k G rng rule: retry_loop.induct)
  case (1 eigsh n d epsilon max_tries iterations k G rng)
  note run = "1.prems"(1)[unfolded retry_loop.simps[of eigsh n d epsilon max_tries iterations k G rng]]
  show ?case
  proof (cases "is_regular_expander (eigsh k) G epsilon")
    case (Inl e)
    then show ?thesis using run by simp
  next
    case (Inr b)
    show ?thesis
    proof (cases b)
      case True
      then show ?thesis using run Inr by simp
    next
      case False
      from run Inr False obtain G1 rng1 where
        m: "maybe_regular_expander n d max_tries rng = Some (Inr G1, rng1)"
        and nz: "iterations - 1 \<noteq> 0"
        and rec: "retry_loop eigsh n d epsilon max_tries (iterations - 1) (k + 1) G1 rng1
                    = Some (Inr G', rng')"
        by (auto split: option.splits sum.splits prod.splits if_splits)
      from maybe_regular_expander_consumes[OF m] obtain used where "rng = used @ rng1" ..
      then have p1: "\<forall>p \<in> set rng1. permutation_of (nat n - 1) p" using "1.prems"(2) by simp
      have bF: "b = False" using False by simp
      from "1.IH"[OF Inr bF m refl refl nz rec p1]
      show ?thesis using m "1.prems"(2) by blast
    qed
  qed
qed

lemma random_regular_expander_graph_Inr:
  assumes "random_regular_expander_graph eigsh n d epsilon mt rng = Some (Inr G, rng')"
    "\<forall>p \<in> set rng. permutation_of (nat n - 1) p"
  obtains E where "3 \<le> n" "2 \<le> d" "d mod 2 = 0" "d \<le> n - 1"
    "cycles_union (nat n) (nat (d div 2)) E" "G = add_edges_from (empty_graph (nat n)) E"
proof -
  from assms(1) obtain G0 rng0 where
    m: "maybe_regular_expander n d mt rng = Some (Inr G0, rng0)"
    and r: "retry_loop eigsh n d epsilon mt mt 0 G0 rng0 = Some (Inr G, rng')"
    by (auto simp: random_regular_expander_graph_def split: option.splits sum.splits prod.splits)
  from maybe_regular_expander_consumes[OF m] obtain used where "rng = used @ rng0" ..
  then have p0: "\<forall>p \<in> set rng0. permutation_of (nat n - 1) p" using assms(2) by simp
  from retry_loop_Inr[OF r p0] m assms(2) obtain rngA rngB where
    "maybe_regular_expander n d mt rngA = Some (Inr G, rngB)"
    "\<forall>p \<in> set rngA. permutation_of (nat n - 1) p"
    by blast
  then show thesis by (rule maybe_regular_expander_Inr) (rule that)
qed

lemma distinct_concat_tagged:
  assumes "distinct xs" "\<And>x. x \<in> set xs \<Longrightarrow> distinct (f x)"
    "\<And>x e. x \<in> set xs \<Longrightarrow> e \<in> set (f x) \<Longrightarrow> fst e = x"
  shows "distinct (concat (map f xs))"
  using assms
proof (induction xs)
  case Nil
  then show ?case by simp
next
  case (Cons x xs)
  have "set (f x) \<inter> set (concat (map f xs)) = {}"
  proof (rule ccontr)
    assume "set (f x) \<inter> set (concat (map f xs)) \<noteq> {}"
    then obtain e y where e: "e \<in> set (f x)" "y \<in> set xs" "e \<in> set (f y)" by auto
    then have "fst e = x" "fst e = y" using Cons.prems(3) by simp_all
    then show False using e(2) Cons.prems(1) by simp
  qed
  moreover have "distinct (f x)" using Cons.prems(2) by simp
  moreover have "distinct (concat (map f xs))"
    using Cons.IH Cons.prems by simp
  ultimately show ?case by simp
qed

lemma neighbors_set:
  assumes "finite (adj G)"
  shows "set (neighbors position G u) = adj G `` {u}" "distinct (neighbors position G u)"
proof -
  have "finite (adj G `` {u})" using assms by (auto intro: finite_Image)
  then show "set (neighbors position G u) = adj G `` {u}" "distinct (neighbors position G u)"
    by (simp_all add: neighbors_def)
qed

lemma edge_list_set:
  assumes "finite (adj G)" "finite (nodes G)" "fst ` adj G \<subseteq> nodes G"
  shows "set (edge_list position G) = {(u, v). (u, v) \<in> adj G \<and> u \<le> v}"
    and "distinct (edge_list position G)"
proof -
  let ?f = "\<lambda>u. map (\<lambda>v. (u, v)) (filter (\<lambda>v. u \<le> v) (neighbors position G u))"
  have setf: "set (?f u) = {(u, v) | v. (u, v) \<in> adj G \<and> u \<le> v}" for u
    using neighbors_set(1)[OF assms(1), of position u] by auto
  show "set (edge_list position G) = {(u, v). (u, v) \<in> adj G \<and> u \<le> v}"
  proof (intro set_eqI iffI)
    fix e assume "e \<in> set (edge_list position G)"
    then obtain u where "u \<in> nodes G" "e \<in> set (?f u)"
      using assms(2) unfolding edge_list_def by auto
    then show "e \<in> {(u, v). (u, v) \<in> adj G \<and> u \<le> v}" unfolding setf by auto
  next
    fix e assume e: "e \<in> {(u, v). (u, v) \<in> adj G \<and> u \<le> v}"
    obtain u v where uv: "e = (u, v)" by (cases e)
    with e have a: "(u, v) \<in> adj G" "u \<le> v" by simp_all
    then have "u \<in> nodes G" using assms(3) by force
    moreover have "e \<in> set (?f u)" unfolding setf using a uv by simp
    ultimately show "e \<in> set (edge_list position G)"
      using assms(2) unfolding edge_list_def set_concat set_map by auto
  qed
  show "distinct (edge_list position G)"
    unfolding edge_list_def
  proof (rule distinct_concat_tagged)
    show "distinct (sorted_list_of_set (nodes G))" by simp
    show "distinct (?f x)" for x
      using neighbors_set(2)[OF assms(1), of position x] by (simp add: distinct_map inj_on_def)
    show "fst e = x" if "e \<in> set (?f x)" for x e
      using that by auto
  qed
qed

lemma in_incidence_entries:
  "(r, c) \<in> set (incidence_entries position G) \<longleftrightarrow>
     c < length (edge_list position G) \<and> fst (edge_list position G ! c) \<noteq> snd (edge_list position G ! c)
     \<and> (r = node_index G (fst (edge_list position G ! c)) \<or> r = node_index G (snd (edge_list position G ! c)))"
  (is "?L \<longleftrightarrow> ?R")
proof
  assume ?L
  then obtain ei u v where e: "(ei, (u, v)) \<in> set (enumerate 0 (edge_list position G))"
    and rc: "(r, c) \<in> set (if u = v then [] else [(node_index G u, ei), (node_index G v, ei)])"
    unfolding incidence_entries_def by auto
  from e have "ei < length (edge_list position G)" "edge_list position G ! ei = (u, v)"
    by (simp_all add: in_set_enumerate_eq)
  moreover from rc have "u \<noteq> v" "c = ei" "r = node_index G u \<or> r = node_index G v"
    by (auto split: if_splits)
  ultimately show ?R by simp
next
  assume R: ?R
  obtain u v where uv: "edge_list position G ! c = (u, v)" by (cases "edge_list position G ! c")
  let ?f = "\<lambda>(ei, (u, v)). if u = v then [] else [(node_index G u, ei), (node_index G v, ei)]"
  from uv R have m: "(c, (u, v)) \<in> set (enumerate 0 (edge_list position G))"
    by (simp add: in_set_enumerate_eq)
  have rc: "(r, c) \<in> set (?f (c, (u, v)))"
    using R uv by auto
  from m have "?f (c, (u, v)) \<in> ?f ` set (enumerate 0 (edge_list position G))" by (rule imageI)
  then have mem: "?f (c, (u, v)) \<in> set (map ?f (enumerate 0 (edge_list position G)))"
    unfolding set_map .
  show ?L unfolding incidence_entries_def set_concat using mem rc by (rule UN_I)
qed

lemma node_index_lessThan:
  assumes "nodes G = {..<n}" "u \<le> n"
  shows "node_index G u = u"
proof -
  have "{w \<in> {..<n}. w < u} = {..<u}" using assms(2) by auto
  then show ?thesis by (simp add: node_index_def assms(1))
qed

lemma Max_lessThan_nat: "0 < m \<Longrightarrow> Max {..<m::nat} = m - 1"
  by (rule Max_eqI) auto

lemma incidence_of_union:
  fixes position :: "graph \<Rightarrow> nat \<Rightarrow> nat \<Rightarrow> nat"
  assumes "cycles_union n k E" "G = add_edges_from (empty_graph n) E"
  defines "es \<equiv> edge_list position G"
  shows "distinct es"
    and "set es = {(u, v). (u, v) \<in> adj G \<and> u < v}"
    and "length es = k * n"
    and "incidence_entries position G
           = concat (map (\<lambda>(c, (u, v)). [(u, c), (v, c)]) (enumerate 0 es))"
    and "\<And>c. c < k * n \<Longrightarrow> card {r. (r, c) \<in> set (incidence_entries position G)} = 2"
    and "snd ` set (incidence_entries position G) = {..<k * n}"
    and "0 < k \<Longrightarrow> fst ` set (incidence_entries position G) = {..<n}"
    and "\<And>u v. u < v \<Longrightarrow>
           (\<exists>c. (u, c) \<in> set (incidence_entries position G)
               \<and> (v, c) \<in> set (incidence_entries position G)) \<longleftrightarrow> (u, v) \<in> adj G"
proof -
  note g = union_graph[OF assms(1,2)]
  from assms(1) have fin: "finite E" and sub: "E \<subseteq> {..<n} \<times> {..<n}"
    and deg: "\<And>u. u < n \<Longrightarrow> card (E `` {u}) = k"
    by (auto simp: cycles_union_def)
  have finA: "finite (adj G)" using fin by (simp add: g(2))
  have finN: "finite (nodes G)" by (simp add: g(1))
  have subA: "adj G \<subseteq> {..<n} \<times> {..<n}" using sub unfolding g(2) by auto
  then have fstA: "fst ` adj G \<subseteq> nodes G" unfolding g(1) by force
  note el = edge_list_set[OF finA finN fstA, of position]
  show d: "distinct es" unfolding es_def by (rule el(2))
  have le: "{(u, v). (u, v) \<in> adj G \<and> u \<le> v} = {(u, v). (u, v) \<in> adj G \<and> u < v}"
    using g(4) by (auto simp: le_less)
  show setes: "set es = {(u, v). (u, v) \<in> adj G \<and> u < v}"
    unfolding es_def el(1) by (rule le)
  have "length es = card (set es)" using d by (simp add: distinct_card)
  also have "\<dots> = card {(u, v). (u, v) \<in> adj G \<and> u \<le> v}" unfolding es_def el(1) ..
  also have "{(u, v). (u, v) \<in> adj G \<and> u \<le> v} = Set.filter (\<lambda>(u, v). u \<le> v) (adj G)"
    by auto
  finally show len: "length es = k * n"
    using g(5) by (simp add: number_of_edges_def del: Set.filter_eq)
  have edge: "fst (es ! c) < snd (es ! c) \<and> snd (es ! c) < n \<and> es ! c \<in> adj G"
    if "c < k * n" for c
  proof -
    obtain u v where uv: "es ! c = (u, v)" by (cases "es ! c")
    have "(u, v) \<in> set es" using that len uv nth_mem[of c es] by simp
    then have "(u, v) \<in> adj G" "u < v" unfolding setes by simp_all
    moreover have "v < n" using \<open>(u, v) \<in> adj G\<close> subA by auto
    ultimately show ?thesis using uv by simp
  qed
  have idx: "node_index G (fst (es ! c)) = fst (es ! c)" "node_index G (snd (es ! c)) = snd (es ! c)"
    if "c < k * n" for c
    using edge[OF that] node_index_lessThan[OF g(1)] by simp_all
  show entries: "incidence_entries position G
           = concat (map (\<lambda>(c, (u, v)). [(u, c), (v, c)]) (enumerate 0 es))"
  proof -
    have "map (\<lambda>(ei, (u, v)). if u = v then []
                 else [(node_index G u, ei), (node_index G v, ei)]) (enumerate 0 es)
        = map (\<lambda>(c, (u, v)). [(u, c), (v, c)]) (enumerate 0 es)"
    proof (rule map_cong[OF refl])
      fix x assume x: "x \<in> set (enumerate 0 es)"
      obtain c u v where xc: "x = (c, (u, v))" by (cases x) auto
      from x xc have c: "c < k * n" "es ! c = (u, v)"
        using len by (simp_all add: in_set_enumerate_eq)
      from edge[OF c(1)] idx[OF c(1)] c(2) have "u \<noteq> v" "node_index G u = u" "node_index G v = v"
        by simp_all
      then show "(case x of (ei, (u, v)) \<Rightarrow> if u = v then []
                   else [(node_index G u, ei), (node_index G v, ei)])
               = (case x of (c, (u, v)) \<Rightarrow> [(u, c), (v, c)])"
        by (simp add: xc)
    qed
    then show ?thesis unfolding incidence_entries_def es_def by (rule arg_cong[of _ _ concat])
  qed
  have mem: "(r, c) \<in> set (incidence_entries position G)
      \<longleftrightarrow> c < k * n \<and> (r = fst (es ! c) \<or> r = snd (es ! c))" for r c
  proof (cases "c < k * n")
    case True
    with edge[OF True] idx[OF True] show ?thesis
      using len by (auto simp: in_incidence_entries es_def[symmetric])
  next
    case False
    then show ?thesis using len by (simp add: in_incidence_entries es_def[symmetric])
  qed
  show "card {r. (r, c) \<in> set (incidence_entries position G)} = 2" if "c < k * n" for c
  proof -
    have "{r. (r, c) \<in> set (incidence_entries position G)} = {fst (es ! c), snd (es ! c)}"
      using that by (auto simp: mem)
    then show ?thesis using edge[OF that] by simp
  qed
  show "snd ` set (incidence_entries position G) = {..<k * n}"
  proof (intro set_eqI iffI)
    fix c assume "c \<in> snd ` set (incidence_entries position G)"
    then obtain r where "(r, c) \<in> set (incidence_entries position G)" by force
    then show "c \<in> {..<k * n}" by (simp add: mem)
  next
    fix c assume "c \<in> {..<k * n}"
    then have "(fst (es ! c), c) \<in> set (incidence_entries position G)" by (simp add: mem)
    then show "c \<in> snd ` set (incidence_entries position G)" by force
  qed
  show "fst ` set (incidence_entries position G) = {..<n}" if k: "0 < k"
  proof (intro set_eqI iffI)
    fix r assume "r \<in> fst ` set (incidence_entries position G)"
    then obtain c where "(r, c) \<in> set (incidence_entries position G)" by force
    then have "c < k * n" "r = fst (es ! c) \<or> r = snd (es ! c)" by (simp_all add: mem)
    with edge[OF this(1)] show "r \<in> {..<n}" by auto
  next
    fix r assume "r \<in> {..<n}"
    then have r: "r < n" by simp
    have "card (adj G `` {r}) \<noteq> 0" using g(3)[OF r] k g(4)
      by (auto simp: degree_def split: if_splits)
    then have "adj G `` {r} \<noteq> {}" by auto
    then obtain w where w: "(r, w) \<in> adj G" by auto
    then have rw: "r \<noteq> w" by (rule g(4))
    have sym: "(w, r) \<in> adj G" using w unfolding g(2) by auto
    have "(min r w, max r w) \<in> set es"
      unfolding setes using w sym rw by (auto simp: min_def max_def)
    then obtain c where c: "c < length es" "es ! c = (min r w, max r w)"
      by (auto simp: in_set_conv_nth)
    then have "(r, c) \<in> set (incidence_entries position G)"
      using len by (auto simp: mem min_def max_def)
    then show "r \<in> fst ` set (incidence_entries position G)" by force
  qed
  show "(\<exists>c. (u, c) \<in> set (incidence_entries position G)
            \<and> (v, c) \<in> set (incidence_entries position G)) \<longleftrightarrow> (u, v) \<in> adj G"
    if uv: "u < v" for u v
  proof
    assume "\<exists>c. (u, c) \<in> set (incidence_entries position G)
               \<and> (v, c) \<in> set (incidence_entries position G)"
    then obtain c where c: "c < k * n" "u = fst (es ! c) \<or> u = snd (es ! c)"
      "v = fst (es ! c) \<or> v = snd (es ! c)" by (auto simp: mem)
    with edge[OF c(1)] uv have "es ! c = (u, v)" by (cases "es ! c") auto
    with edge[OF c(1)] show "(u, v) \<in> adj G" by simp
  next
    assume "(u, v) \<in> adj G"
    then have "(u, v) \<in> set es" unfolding setes using uv by simp
    then obtain c where c: "c < length es" "es ! c = (u, v)" by (auto simp: in_set_conv_nth)
    then have "(u, c) \<in> set (incidence_entries position G)"
      "(v, c) \<in> set (incidence_entries position G)" using len by (simp_all add: mem)
    then show "\<exists>c. (u, c) \<in> set (incidence_entries position G)
               \<and> (v, c) \<in> set (incidence_entries position G)" by blast
  qed
qed

section \<open>A run reads a prefix of the random source\<close>

lemma while_cycle_done:
  "card (snd st) = (i + 1) * n \<Longrightarrow> while_cycle n i it st rng = Some (Inr st, rng)"
  by (cases rng) simp_all

lemma while_cycle_prefix:
  assumes "while_cycle n i it st rng = Some (r, rest)"
  shows "\<exists>used. rng = used @ rest \<and> (\<forall>other. while_cycle n i it st (used @ other) = Some (r, other))"
  using assms
proof (induction rng arbitrary: it st)
  case Nil
  then have d: "card (snd st) = (i + 1) * n" and r: "r = Inr st" "rest = []"
    by (simp_all split: if_splits)
  show ?case using while_cycle_done[OF d] r by simp
next
  case (Cons perm rng)
  show ?case
  proof (cases "card (snd st) = (i + 1) * n")
    case True
    then have "r = Inr st" "rest = perm # rng" using Cons.prems by simp_all
    then show ?thesis using while_cycle_done[OF True] by simp
  next
    case False
    show ?thesis
    proof (cases "it - 1 = 0")
      case True
      then have "r = Inl (NetworkXError ''Too many iterations in maybe_regular_expander'')"
        "rest = rng" using Cons.prems False by (simp_all add: Let_def)
      then have "perm # rng = [perm] @ rest
        \<and> (\<forall>other. while_cycle n i it st ([perm] @ other) = Some (r, other))"
        using False True by (simp add: Let_def)
      then show ?thesis by blast
    next
      case nz: False
      then have "while_cycle n i (it - 1) (attempt_cycle n st perm) rng = Some (r, rest)"
        using Cons.prems False by (simp add: Let_def)
      from Cons.IH[OF this] obtain used where u: "rng = used @ rest"
        "\<forall>other. while_cycle n i (it - 1) (attempt_cycle n st perm) (used @ other) = Some (r, other)"
        by blast
      then have "perm # rng = (perm # used) @ rest
        \<and> (\<forall>other. while_cycle n i it st ((perm # used) @ other) = Some (r, other))"
        using False nz by (simp add: Let_def)
      then show ?thesis by blast
    qed
  qed
qed

lemma for_cycles_prefix:
  assumes "for_cycles n mt js st rng = Some (r, rest)"
  shows "\<exists>used. rng = used @ rest \<and> (\<forall>other. for_cycles n mt js st (used @ other) = Some (r, other))"
  using assms
proof (induction js arbitrary: st rng)
  case Nil
  then show ?case by simp
next
  case (Cons j js)
  from Cons.prems consider (1) st1 rng1 where
    "while_cycle n j mt st rng = Some (Inr st1, rng1)"
    "for_cycles n mt js st1 rng1 = Some (r, rest)"
  | (2) e where "while_cycle n j mt st rng = Some (Inl e, rest)" "r = Inl e"
    by (auto split: option.splits sum.splits prod.splits)
  then show ?case
  proof cases
    case 1
    from while_cycle_prefix[OF 1(1)] obtain u1 where u1: "rng = u1 @ rng1"
      "\<forall>other. while_cycle n j mt st (u1 @ other) = Some (Inr st1, other)" by blast
    from Cons.IH[OF 1(2)] obtain u2 where u2: "rng1 = u2 @ rest"
      "\<forall>other. for_cycles n mt js st1 (u2 @ other) = Some (r, other)" by blast
    have "rng = (u1 @ u2) @ rest" using u1(1) u2(1) by simp
    moreover have "\<forall>other. for_cycles n mt (j # js) st ((u1 @ u2) @ other) = Some (r, other)"
      using u1(2) u2(2) by simp
    ultimately show ?thesis by blast
  next
    case 2
    from while_cycle_prefix[OF 2(1)] obtain u1 where u1: "rng = u1 @ rest"
      "\<forall>other. while_cycle n j mt st (u1 @ other) = Some (Inl e, other)" by blast
    then have "\<forall>other. for_cycles n mt (j # js) st (u1 @ other) = Some (r, other)"
      using 2(2) by simp
    with u1(1) show ?thesis by blast
  qed
qed

lemma maybe_regular_expander_prefix:
  assumes "maybe_regular_expander n d mt rng = Some (r, rest)"
  shows "\<exists>used. rng = used @ rest
           \<and> (\<forall>other. maybe_regular_expander n d mt (used @ other) = Some (r, other))"
proof (cases "d mod 2 \<noteq> 0 \<or> d < 2 \<or> n - 1 < d \<or> n < 1")
  case True
  from maybe_regular_expander_invalid_all[OF True] obtain msg where
    m: "\<forall>other. maybe_regular_expander n d mt other = Some (Inl (NetworkXError msg), other)"
    by blast
  with assms have "r = Inl (NetworkXError msg)" "rest = rng" by simp_all
  with m show ?thesis by (intro exI[of _ "[]"]) simp
next
  case False
  then have v: "1 \<le> n" "2 \<le> d" "d mod 2 = 0" "d \<le> n - 1" "\<not> n < 2" by auto
  let ?f = "for_cycles (nat n) mt [0..<nat (d div 2)] ([], {})"
  have eq: "maybe_regular_expander n d mt g =
      (case ?f g of None \<Rightarrow> None | Some (Inl e, g') \<Rightarrow> Some (Inl e, g')
       | Some (Inr st, g') \<Rightarrow> Some (Inr (add_edges_from (empty_graph (nat n)) (snd st)), g'))" for g
    using v by (simp add: maybe_regular_expander_def Let_def)
  from assms obtain r0 where f: "?f rng = Some (r0, rest)"
    and r: "r = (case r0 of Inl e \<Rightarrow> Inl e
                 | Inr st \<Rightarrow> Inr (add_edges_from (empty_graph (nat n)) (snd st)))"
    unfolding eq by (auto split: option.splits sum.splits prod.splits)
  from for_cycles_prefix[OF f] obtain used where u: "rng = used @ rest"
    "\<forall>other. ?f (used @ other) = Some (r0, other)" by blast
  have "\<forall>other. maybe_regular_expander n d mt (used @ other) = Some (r, other)"
    unfolding eq using u(2) r by (auto split: sum.splits)
  with u(1) show ?thesis by blast
qed

lemma retry_loop_prefix:
  assumes "retry_loop eigsh n d epsilon mt it k G rng = Some (r, rest)"
  shows "\<exists>used. rng = used @ rest
           \<and> (\<forall>other. retry_loop eigsh n d epsilon mt it k G (used @ other) = Some (r, other))"
  using assms
proof (induction eigsh n d epsilon mt it k G rng arbitrary: r rule: retry_loop.induct)
  case (1 eigsh n d epsilon max_tries iterations k G rng)
  note run = "1.prems"(1)[unfolded retry_loop.simps[of eigsh n d epsilon max_tries iterations k G rng]]
  show ?case
  proof (cases "is_regular_expander (eigsh k) G epsilon")
    case (Inl e)
    then have "r = Inl e" "rest = rng" using run by simp_all
    moreover have "\<forall>other. retry_loop eigsh n d epsilon max_tries iterations k G other
        = Some (Inl e, other)" using Inl by (subst retry_loop.simps) simp
    ultimately show ?thesis by (intro exI[of _ "[]"]) simp
  next
    case (Inr b)
    show ?thesis
    proof (cases b)
      case True
      then have "r = Inr G" "rest = rng" using run Inr by simp_all
      moreover have "\<forall>other. retry_loop eigsh n d epsilon max_tries iterations k G other
          = Some (Inr G, other)" using Inr True by (subst retry_loop.simps) simp
      ultimately show ?thesis by (intro exI[of _ "[]"]) simp
    next
      case False
      have bF: "b = False" using False by simp
      from run Inr False obtain r1 rng1 where
        m: "maybe_regular_expander n d max_tries rng = Some (r1, rng1)"
        by (auto split: option.splits)
      from maybe_regular_expander_prefix[OF m] obtain u1 where u1: "rng = u1 @ rng1"
        "\<forall>other. maybe_regular_expander n d max_tries (u1 @ other) = Some (r1, other)" by blast
      show ?thesis
      proof (cases r1)
        case (Inl e)
        then have "r = Inl e" "rest = rng1" using run Inr False m by simp_all
        moreover have "\<forall>other. retry_loop eigsh n d epsilon max_tries iterations k G (u1 @ other)
            = Some (Inl e, other)" using Inr False u1(2) Inl by (subst retry_loop.simps) simp
        ultimately show ?thesis using u1(1) by blast
      next
        case G1: (Inr G1)
        show ?thesis
        proof (cases "iterations - 1 = 0")
          case True
          then have "r = Inl (NetworkXError ''Too many iterations in random_regular_expander_graph'')"
            "rest = rng1" using run Inr False m G1 by simp_all
          moreover have "\<forall>other. retry_loop eigsh n d epsilon max_tries iterations k G (u1 @ other)
              = Some (Inl (NetworkXError ''Too many iterations in random_regular_expander_graph''), other)"
            using Inr False u1(2) G1 True by (subst retry_loop.simps) simp
          ultimately show ?thesis using u1(1) by blast
        next
          case nz: False
          then have rec: "retry_loop eigsh n d epsilon max_tries (iterations - 1) (k + 1) G1 rng1 = Some (r, rest)"
            using run Inr False m G1 by simp
          have m': "maybe_regular_expander n d max_tries rng = Some (Inr G1, rng1)"
            using m G1 by simp
          from "1.IH"[OF Inr bF m' refl refl nz rec] obtain u2 where u2: "rng1 = u2 @ rest"
            "\<forall>other. retry_loop eigsh n d epsilon max_tries (iterations - 1) (k + 1) G1 (u2 @ other)
               = Some (r, other)" by blast
          have "rng = (u1 @ u2) @ rest" using u1(1) u2(1) by simp
          moreover have "\<forall>other. retry_loop eigsh n d epsilon max_tries iterations k G ((u1 @ u2) @ other)
              = Some (r, other)"
            using Inr False u1(2) G1 nz u2(2) by (subst retry_loop.simps) simp
          ultimately show ?thesis by blast
        qed
      qed
    qed
  qed
qed

lemma random_regular_expander_graph_prefix:
  assumes "random_regular_expander_graph eigsh n d epsilon mt rng = Some (r, rest)"
  shows "\<exists>used. rng = used @ rest
     \<and> (\<forall>other. random_regular_expander_graph eigsh n d epsilon mt (used @ other) = Some (r, other))"
proof -
  from assms obtain r1 rng1 where m: "maybe_regular_expander n d mt rng = Some (r1, rng1)"
    by (auto simp: random_regular_expander_graph_def split: option.splits)
  from maybe_regular_expander_prefix[OF m] obtain u1 where u1: "rng = u1 @ rng1"
    "\<forall>other. maybe_regular_expander n d mt (u1 @ other) = Some (r1, other)" by blast
  show ?thesis
  proof (cases r1)
    case (Inl e)
    then have "r = Inl e" "rest = rng1"
      using assms m by (simp_all add: random_regular_expander_graph_def)
    moreover have "\<forall>other. random_regular_expander_graph eigsh n d epsilon mt (u1 @ other)
        = Some (Inl e, other)"
      using u1(2) Inl by (simp add: random_regular_expander_graph_def)
    ultimately show ?thesis using u1(1) by blast
  next
    case (Inr G)
    then have "retry_loop eigsh n d epsilon mt mt 0 G rng1 = Some (r, rest)"
      using assms m by (simp add: random_regular_expander_graph_def)
    from retry_loop_prefix[OF this] obtain u2 where u2: "rng1 = u2 @ rest"
      "\<forall>other. retry_loop eigsh n d epsilon mt mt 0 G (u2 @ other) = Some (r, other)" by blast
    have "rng = (u1 @ u2) @ rest" using u1(1) u2(1) by simp
    moreover have "\<forall>other. random_regular_expander_graph eigsh n d epsilon mt ((u1 @ u2) @ other)
        = Some (r, other)"
      using u1(2) u2(2) Inr by (simp add: random_regular_expander_graph_def)
    ultimately show ?thesis by blast
  qed
qed

section \<open>A 10-regular graph on 17 nodes\<close>

text \<open>
  The Petersen graph on the nodes \<open>0 .. 9\<close> (outer cycle, spokes, inner pentagram),
  and seven more nodes \<open>10 .. 16\<close>, each joined to all of \<open>0 .. 9\<close> and to none of
  the others. Every node has degree 10. The eigenvalues of its adjacency matrix are
  10, -7, 1 (five times), -2 (four times) and 0 (six times).
\<close>

definition petersen_join_edges :: "(nat \<times> nat) list" where
  "petersen_join_edges =
     [(0, 1), (1, 2), (2, 3), (3, 4), (4, 0),
      (0, 5), (1, 6), (2, 7), (3, 8), (4, 9),
      (5, 7), (7, 9), (9, 6), (6, 8), (8, 5)]
     @ concat (map (\<lambda>u. map (\<lambda>v. (u, v)) [0..<10]) [10..<17])"

definition petersen_join :: graph where
  "petersen_join =
     \<lparr>nodes = set [0..<17],
      adj = set (petersen_join_edges @ map (\<lambda>(u, v). (v, u)) petersen_join_edges)\<rparr>"

text \<open>
  The bound as the documentation of \<open>is_regular_expander\<close> states it,
  \<open>2 * sqrt (d - 1) + epsilon\<close>.
\<close>

definition alon_boppana_bound :: "int \<Rightarrow> real \<Rightarrow> real" where
  "alon_boppana_bound d epsilon = 2 * sqrt (real_of_int (d - 1)) + epsilon"

lemma petersen_join_regular:
  "is_regular petersen_join = Inr True \<and> degree petersen_join (Min (nodes petersen_join)) = 10"
  by code_simp

text \<open>
  The vector with -7 on the nodes \<open>0 .. 9\<close> and 10 on the nodes \<open>10 .. 16\<close> is an
  eigenvector of the adjacency matrix for the eigenvalue -7.
\<close>

lemma petersen_join_eigenvector:
  "list_all (\<lambda>u. (\<Sum>w \<in> adj petersen_join `` {u}. if w < 10 then - 7 else (10::int))
                    = - 7 * (if u < 10 then - 7 else 10)) [0..<17]"
  by code_simp

lemma sqrt_9: "sqrt 9 = 3"
  by (rule real_sqrt_unique) simp_all

section \<open>The descriptor of a successful lifting\<close>

lemma length_incidence_list:
  "length (concat (map (\<lambda>(c, (u, v)). [(u, c), (v, c)]) (enumerate k es))) = 2 * length es"
  by (induction es arbitrary: k) (auto split: prod.splits)

lemma lift_topology_incidence:
  fixes position :: "graph \<Rightarrow> nat \<Rightarrow> nat \<Rightarrow> nat"
  assumes "lift_topology position eigsh self data global_rng = Some (Inr out, global_rng')"
    and "\<forall>p \<in> set global_rng. permutation_of (nat (data_num_nodes data) - 1) p"
  obtains G es where
    "random_regular_expander_graph eigsh (data_num_nodes data) (node_degree self) 0 100 global_rng
       = Some (Inr G, global_rng')"
    "distinct es" "set es = {(u, v). (u, v) \<in> adj G \<and> u < v}"
    "int (length es) = data_num_nodes data * node_degree self div 2"
    "tensor_indices (incidence_hyperedges out)
       = concat (map (\<lambda>(c, (u, v)). [(u, c), (v, c)]) (enumerate 0 es))"
    "tensor_values (incidence_hyperedges out) = replicate (2 * length es) 1"
    "tensor_size (incidence_hyperedges out) = (nat (data_num_nodes data), length es)"
    "num_hyperedges out = length es" "x_0 out = data_x data"
    "\<And>c. c < length es \<Longrightarrow>
        card {r. (r, c) \<in> set (tensor_indices (incidence_hyperedges out))} = 2"
    "\<And>u v. u < v \<Longrightarrow>
        (\<exists>c. (u, c) \<in> set (tensor_indices (incidence_hyperedges out))
            \<and> (v, c) \<in> set (tensor_indices (incidence_hyperedges out))) \<longleftrightarrow> (u, v) \<in> adj G"
proof -
  let ?n = "data_num_nodes data" and ?d = "node_degree self"
  from assms(1) obtain G where
    run: "random_regular_expander_graph eigsh ?n ?d 0 100 global_rng = Some (Inr G, global_rng')"
    and out: "out = \<lparr>incidence_hyperedges =
                      torch_sparse_coo_tensor
                        (coo_row (incidence_matrix position G), coo_col (incidence_matrix position G))
                        (coo_data (incidence_matrix position G)),
                    num_hyperedges = snd (tensor_size
                      (torch_sparse_coo_tensor
                        (coo_row (incidence_matrix position G), coo_col (incidence_matrix position G))
                        (coo_data (incidence_matrix position G)))),
                    x_0 = data_x data\<rparr>"
    by (auto simp: lift_topology_def np_random_state_def Let_def
          split: option.splits sum.splits prod.splits)
  from run assms(2) obtain E where v: "3 \<le> ?n" "2 \<le> ?d" "?d mod 2 = 0" "?d \<le> ?n - 1"
    and E: "cycles_union (nat ?n) (nat (?d div 2)) E"
    and G: "G = add_edges_from (empty_graph (nat ?n)) E"
    by (rule random_regular_expander_graph_Inr)
  let ?k = "nat (?d div 2)"
  let ?m = "?k * nat ?n"
  let ?es = "edge_list position G"
  let ?en = "incidence_entries position G"
  note ic = incidence_of_union[OF E G, where position = position]
  have kpos: "0 < ?k" and npos: "0 < nat ?n" using v by simp_all
  then have mpos: "0 < ?m" by simp
  have len: "length ?es = ?m" by (rule ic(3))
  have cols: "set (map snd ?en) = {..<?m}" using ic(6) by simp
  have rows: "set (map fst ?en) = {..<nat ?n}" using ic(7)[OF kpos] by simp
  have "0 \<in> {..<?m}" using mpos by simp
  then have "0 \<in> set (map snd ?en)" unfolding cols .
  then have ne: "?en \<noteq> []" by auto
  have idx: "tensor_indices (incidence_hyperedges out) = ?en"
    by (simp add: out torch_sparse_coo_tensor_def incidence_matrix_def Let_def zip_map_fst_snd)
  have size: "tensor_size (incidence_hyperedges out) = (nat ?n, length ?es)"
    using ne cols rows Max_lessThan_nat[OF mpos] Max_lessThan_nat[OF npos] mpos npos len
    by (simp add: out torch_sparse_coo_tensor_def incidence_matrix_def Let_def)
  have lenen: "length ?en = 2 * length ?es"
    unfolding ic(4) by (rule length_incidence_list)
  have vals: "tensor_values (incidence_hyperedges out) = replicate (2 * length ?es) 1"
    by (simp add: out torch_sparse_coo_tensor_def incidence_matrix_def Let_def
          map_replicate_const lenen)
  have "int ?m = (?d div 2) * ?n" using v by simp
  also have "\<dots> = ?n * ?d div 2" using v(3) by (rule half_times)
  finally have cnt: "int (length ?es) = ?n * ?d div 2" using len by simp
  have nh: "num_hyperedges out = length ?es" using size by (simp add: out)
  have x0: "x_0 out = data_x data" by (simp add: out)
  show thesis
  proof (rule that[of G ?es])
    show "random_regular_expander_graph eigsh ?n ?d 0 100 global_rng = Some (Inr G, global_rng')"
      by (rule run)
    show "distinct ?es" by (rule ic(1))
    show "set ?es = {(u, v). (u, v) \<in> adj G \<and> u < v}" by (rule ic(2))
    show "int (length ?es) = ?n * ?d div 2" by (rule cnt)
    show "tensor_indices (incidence_hyperedges out)
       = concat (map (\<lambda>(c, (u, v)). [(u, c), (v, c)]) (enumerate 0 ?es))"
      unfolding idx by (rule ic(4))
    show "tensor_values (incidence_hyperedges out) = replicate (2 * length ?es) 1" by (rule vals)
    show "tensor_size (incidence_hyperedges out) = (nat ?n, length ?es)" by (rule size)
    show "num_hyperedges out = length ?es" by (rule nh)
    show "x_0 out = data_x data" by (rule x0)
    show "card {r. (r, c) \<in> set (tensor_indices (incidence_hyperedges out))} = 2"
      if "c < length ?es" for c
      unfolding idx using ic(5)[of c] that len by simp
    show "(\<exists>c. (u, c) \<in> set (tensor_indices (incidence_hyperedges out))
            \<and> (v, c) \<in> set (tensor_indices (incidence_hyperedges out))) \<longleftrightarrow> (u, v) \<in> adj G"
      if "u < v" for u v
      unfolding idx using that by (rule ic(8))
  qed
qed

section \<open>Two answers of the solver on four nodes\<close>

text \<open>
  The cycle on four nodes has the eigenvalues 2, 0, 0 and -2, and the bound for
  degree 2 is \<open>2 ** sqrt 1 = 2\<close>: the answer -2 of the solver fails the check, an
  answer that is off by one rounding, -1.9999999999999998, passes it.
\<close>

lemma run_4_2_first:
  "maybe_regular_expander 4 2 100 [[0, 1, 2], [1, 0, 2]] =
     Some (Inr \<lparr>nodes = {0, 1, 2, 3},
                adj = {(0, 1), (1, 2), (2, 3), (3, 0), (1, 0), (2, 1), (3, 2), (0, 3)}\<rparr>,
           [[1, 0, 2]])"
  by code_simp

lemma run_4_2_second:
  "maybe_regular_expander 4 2 100 [[1, 0, 2]] =
     Some (Inr \<lparr>nodes = {0, 1, 2, 3},
                adj = {(1, 0), (0, 2), (2, 3), (3, 1), (0, 1), (2, 0), (3, 2), (1, 3)}\<rparr>, [])"
  by code_simp

lemma regular_4_2_first:
  "is_regular \<lparr>nodes = {0, 1, 2, 3},
                adj = {(0, 1), (1, 2), (2, 3), (3, 0), (1, 0), (2, 1), (3, 2), (0, 3)}\<rparr> = Inr True"
  "degree \<lparr>nodes = {0, 1, 2, 3},
                adj = {(0, 1), (1, 2), (2, 3), (3, 0), (1, 0), (2, 1), (3, 2), (0, 3)}\<rparr>
      (Min (nodes \<lparr>nodes = {0, 1, 2, 3},
                adj = {(0, 1), (1, 2), (2, 3), (3, 0), (1, 0), (2, 1), (3, 2), (0, 3)}\<rparr>)) = 2"
  by code_simp+

lemma regular_4_2_second:
  "is_regular \<lparr>nodes = {0, 1, 2, 3},
                adj = {(1, 0), (0, 2), (2, 3), (3, 1), (0, 1), (2, 0), (3, 2), (1, 3)}\<rparr> = Inr True"
  "degree \<lparr>nodes = {0, 1, 2, 3},
                adj = {(1, 0), (0, 2), (2, 3), (3, 1), (0, 1), (2, 0), (3, 2), (1, 3)}\<rparr>
      (Min (nodes \<lparr>nodes = {0, 1, 2, 3},
                adj = {(1, 0), (0, 2), (2, 3), (3, 1), (0, 1), (2, 0), (3, 2), (1, 3)}\<rparr>)) = 2"
  by code_simp+

lemma cycle_on_the_bound:
  assumes "is_regular G = Inr True" "degree G (Min (nodes G)) = 2"
  shows "is_regular_expander (\<lambda>G. Inr (2, - 2)) G 0 = Inr False"
    and "is_regular_expander (\<lambda>G. Inr (2, - 1.9999999999999998)) G 0 = Inr True"
  using assms by (simp_all add: is_regular_expander_def)

lemma expander_4_2_exact:
  "random_regular_expander_graph
       (\<lambda>k G. if k = 0 then Inr (2, - 2) else Inr (2, - 1.9999999999999998))
       4 2 0 100 [[0, 1, 2], [1, 0, 2]] =
     Some (Inr \<lparr>nodes = {0, 1, 2, 3},
                adj = {(1, 0), (0, 2), (2, 3), (3, 1), (0, 1), (2, 0), (3, 2), (1, 3)}\<rparr>, [])"
proof -
  let ?e = "\<lambda>k (G::graph). if k = (0::nat) then Inr (2, - 2) else Inr (2::real, - 1.9999999999999998 :: real) :: error + real \<times> real"
  have e0: "?e 0 = (\<lambda>G. Inr (2, - 2))" by simp
  have e1: "?e (0 + 1) = (\<lambda>G. Inr (2, - 1.9999999999999998))" by simp
  have it: "(100::int) - 1 \<noteq> 0" by simp
  show ?thesis
    unfolding random_regular_expander_graph_def
    by (simp only: run_4_2_first option.case prod.case sum.case
          retry_loop.simps[of _ _ _ _ _ 100 0] retry_loop.simps[of _ _ _ _ _ "100 - 1" "0 + 1"]
          e0 e1 cycle_on_the_bound[OF regular_4_2_first] cycle_on_the_bound[OF regular_4_2_second]
          bool.case run_4_2_second it if_False)
qed

lemma expander_4_2_rounded:
  "random_regular_expander_graph (\<lambda>k G. Inr (2, - 1.9999999999999998))
       4 2 0 100 [[0, 1, 2], [1, 0, 2]] =
     Some (Inr \<lparr>nodes = {0, 1, 2, 3},
                adj = {(0, 1), (1, 2), (2, 3), (3, 0), (1, 0), (2, 1), (3, 2), (0, 3)}\<rparr>,
           [[1, 0, 2]])"
  unfolding random_regular_expander_graph_def
  by (simp only: run_4_2_first option.case prod.case sum.case
        retry_loop.simps[of _ _ _ _ _ 100 0]
        cycle_on_the_bound[OF regular_4_2_first] bool.case)

lemma descriptors_differ:
  fixes position :: "graph \<Rightarrow> nat \<Rightarrow> nat \<Rightarrow> nat"
  assumes a: "random_regular_expander_graph eigsh1 (data_num_nodes data) (node_degree self) 0 100 g1
                = Some (Inr G1, r1)"
    and b: "random_regular_expander_graph eigsh2 (data_num_nodes data) (node_degree self) 0 100 g2
                = Some (Inr G2, r2)"
    and p1: "\<forall>p \<in> set g1. permutation_of (nat (data_num_nodes data) - 1) p"
    and p2: "\<forall>p \<in> set g2. permutation_of (nat (data_num_nodes data) - 1) p"
    and uv: "u < v" "(u, v) \<in> adj G1" "(u, v) \<notin> adj G2"
  shows "map_option fst (lift_topology position eigsh1 self data g1)
       \<noteq> map_option fst (lift_topology position eigsh2 self data g2)"
proof -
  from a have "\<exists>out. lift_topology position eigsh1 self data g1 = Some (Inr out, r1)"
    by (simp add: lift_topology_def np_random_state_def Let_def)
  then obtain out1 where o1: "lift_topology position eigsh1 self data g1 = Some (Inr out1, r1)" ..
  from b have "\<exists>out. lift_topology position eigsh2 self data g2 = Some (Inr out, r2)"
    by (simp add: lift_topology_def np_random_state_def Let_def)
  then obtain out2 where o2: "lift_topology position eigsh2 self data g2 = Some (Inr out2, r2)" ..
  obtain G where G: "random_regular_expander_graph eigsh1 (data_num_nodes data) (node_degree self)
        0 100 g1 = Some (Inr G, r1)"
    "\<And>u v. u < v \<Longrightarrow>
        (\<exists>c. (u, c) \<in> set (tensor_indices (incidence_hyperedges out1))
            \<and> (v, c) \<in> set (tensor_indices (incidence_hyperedges out1))) \<longleftrightarrow> (u, v) \<in> adj G"
    by (rule lift_topology_incidence[OF o1 p1]) blast
  obtain G' where G': "random_regular_expander_graph eigsh2 (data_num_nodes data) (node_degree self)
        0 100 g2 = Some (Inr G', r2)"
    "\<And>u v. u < v \<Longrightarrow>
        (\<exists>c. (u, c) \<in> set (tensor_indices (incidence_hyperedges out2))
            \<and> (v, c) \<in> set (tensor_indices (incidence_hyperedges out2))) \<longleftrightarrow> (u, v) \<in> adj G'"
    by (rule lift_topology_incidence[OF o2 p2]) blast
  have "G = G1" "G' = G2" using a b G(1) G'(1) by simp_all
  then have "\<exists>c. (u, c) \<in> set (tensor_indices (incidence_hyperedges out1))
            \<and> (v, c) \<in> set (tensor_indices (incidence_hyperedges out1))"
    and "\<not> (\<exists>c. (u, c) \<in> set (tensor_indices (incidence_hyperedges out2))
            \<and> (v, c) \<in> set (tensor_indices (incidence_hyperedges out2)))"
    using G(2)[OF uv(1)] G'(2)[OF uv(1)] uv(2,3) by simp_all
  then have "out1 \<noteq> out2" by auto
  then show ?thesis by (simp add: o1 o2)
qed

section \<open>The claims\<close>

text \<open>
  C2. Every graph that \<open>maybe_regular_expander\<close> or
  \<open>random_regular_expander_graph\<close> returns, when every draw is a permutation of
  \<open>0 .. n - 2\<close>, has exactly the nodes \<open>0 .. n - 1\<close>, every node has degree exactly
  \<open>d\<close>, no node is joined to itself, and the graph has \<open>n * d / 2\<close> edges: none of
  the \<open>n * d / 2\<close> pairs handed to the graph falls on an edge that is already
  there, so no edge is doubled.
\<close>

theorem maybe_regular_expander_simple_regular:
  assumes "maybe_regular_expander n d max_tries rng = Some (Inr G, rng')
         \<or> random_regular_expander_graph eigsh n d epsilon max_tries rng = Some (Inr G, rng')"
    and "\<forall>p \<in> set rng. permutation_of (nat n - 1) p"
  shows "nodes G = set [0..<nat n] \<and> (\<forall>u \<in> nodes G. degree G u = nat d)
       \<and> (\<forall>(u, v) \<in> adj G. u \<noteq> v) \<and> int (number_of_edges G) = n * d div 2"
proof -
  from assms obtain E where v: "3 \<le> n" "2 \<le> d" "d mod 2 = 0" "d \<le> n - 1"
    and E: "cycles_union (nat n) (nat (d div 2)) E"
    and G: "G = add_edges_from (empty_graph (nat n)) E"
    by (elim disjE maybe_regular_expander_Inr random_regular_expander_graph_Inr)
  note g = union_graph[OF E G]
  have d2: "2 * nat (d div 2) = nat d" using v(2,3) by (rule twice_half)
  have nodes: "nodes G = set [0..<nat n]" by (simp add: g(1) lessThan_atLeast0)
  moreover have "\<forall>u \<in> nodes G. degree G u = nat d"
  proof
    fix u assume "u \<in> nodes G"
    then have "u < nat n" by (simp add: g(1))
    then show "degree G u = nat d" using g(3)[of u] d2 by simp
  qed
  moreover have "\<forall>(u, v) \<in> adj G. u \<noteq> v" using g(4) by blast
  moreover have "int (number_of_edges G) = n * d div 2"
  proof -
    have "int (number_of_edges G) = (d div 2) * n" using g(5) v(1,2) by simp
    also have "\<dots> = n * d div 2" using v(3) by (rule half_times)
    finally show ?thesis .
  qed
  ultimately show ?thesis by blast
qed

theorem maybe_regular_expander_simple_regular_witness:
  "\<exists>G. maybe_regular_expander 5 4 100 [[0, 1, 2, 3], [0, 1, 2, 3], [1, 3, 0, 2]] = Some (Inr G, [])
     \<and> list_all (permutation_of 4) [[0, 1, 2, 3], [0, 1, 2, 3], [1, 3, 0, 2]]
     \<and> nodes G = {0, 1, 2, 3, 4} \<and> degree G 3 = 4 \<and> (0, 0) \<notin> adj G
     \<and> number_of_edges G = 10"
proof -
  let ?rng = "[[0, 1, 2, 3], [0, 1, 2, 3], [1, 3, 0, 2::nat]]"
  obtain G where G: "maybe_regular_expander 5 4 100 ?rng = Some (Inr G, [])"
    using run_5_4 by blast
  have p: "\<forall>p \<in> set ?rng. permutation_of (nat 5 - 1) p" by code_simp
  have l: "list_all (permutation_of 4) ?rng" by code_simp
  from maybe_regular_expander_simple_regular[OF disjI1[OF G] p]
  have "nodes G = {0, 1, 2, 3, 4}" "degree G 3 = 4" "(0, 0) \<notin> adj G" "number_of_edges G = 10"
    by (auto simp: upt_rec_numeral)
  with G l show ?thesis by blast
qed

text \<open>
  C5. When \<open>d\<close> is odd, or \<open>d < 2\<close>, or \<open>n - 1 < d\<close>, or \<open>n < 1\<close>, both
  \<open>maybe_regular_expander\<close> and \<open>random_regular_expander_graph\<close> raise a
  \<open>NetworkXError\<close> and leave the random source as it was: no permutation has been
  drawn, so no cycle has been built. This holds on every source, the empty one too.
\<close>

theorem invalid_arguments_rejected:
  assumes "d mod 2 \<noteq> 0 \<or> d < 2 \<or> n - 1 < d \<or> n < 1"
  shows "\<exists>msg. maybe_regular_expander n d max_tries rng = Some (Inl (NetworkXError msg), rng)
     \<and> random_regular_expander_graph eigsh n d epsilon max_tries rng
         = Some (Inl (NetworkXError msg), rng)"
proof -
  from assms have "\<exists>msg. maybe_regular_expander n d max_tries rng = Some (Inl (NetworkXError msg), rng)"
    by (rule maybe_regular_expander_invalid)
  then obtain msg where
    "maybe_regular_expander n d max_tries rng = Some (Inl (NetworkXError msg), rng)" ..
  then show ?thesis by (auto simp: random_regular_expander_graph_def)
qed

theorem invalid_arguments_rejected_witness:
  "\<exists>msg. maybe_regular_expander 4 3 100 [] = Some (Inl (NetworkXError msg), [])
     \<and> random_regular_expander_graph (\<lambda>k G. Inr (0, 0)) 4 3 0 100 []
         = Some (Inl (NetworkXError msg), [])"
  by (rule invalid_arguments_rejected) simp

text \<open>
  C6, as the code has it. With \<open>n = 1\<close> no degree passes the argument checks,
  which ask for \<open>2 \<le> d \<le> n - 1\<close>: every call with \<open>n < 2\<close> raises a
  \<open>NetworkXError\<close> of the argument checks and leaves the random source as it was,
  in \<open>maybe_regular_expander\<close> and in \<open>random_regular_expander_graph\<close>. So no
  graph on one node is returned, and the branch \<^verbatim>\<open>if n < 2: return G\<close> is never
  reached.
\<close>

theorem single_node_never_returned:
  assumes "n < 2"
  shows "\<exists>msg. maybe_regular_expander n d max_tries rng = Some (Inl (NetworkXError msg), rng)
     \<and> random_regular_expander_graph eigsh n d epsilon max_tries rng
         = Some (Inl (NetworkXError msg), rng)"
proof -
  have "d mod 2 \<noteq> 0 \<or> d < 2 \<or> n - 1 < d \<or> n < 1" using assms by arith
  then obtain msg where
    "maybe_regular_expander n d max_tries rng = Some (Inl (NetworkXError msg), rng)"
    using maybe_regular_expander_invalid by blast
  then show ?thesis by (auto simp: random_regular_expander_graph_def)
qed

theorem single_node_never_returned_witness:
  "\<exists>msg. maybe_regular_expander 1 2 100 [] = Some (Inl (NetworkXError msg), [])
     \<and> random_regular_expander_graph (\<lambda>k G. Inr (0, 0)) 1 2 0 100 []
         = Some (Inl (NetworkXError msg), [])"
  by (rule single_node_never_returned) simp

text \<open>
  C6 as stated fails: the call with \<open>n = 1\<close> and the even degree \<open>d = 2\<close> raises
  the error of the check \<open>n - 1 \<ge> d\<close> and does not return the empty graph on one
  node.
\<close>

theorem single_node_rejected:
  "maybe_regular_expander 1 2 100 [] =
     Some (Inl (NetworkXError
       ''Need n-1>= d to have room for 1 independent cycles with 1 nodes''), [])
   \<and> maybe_regular_expander 1 2 100 [] \<noteq> Some (Inr (empty_graph 1), [])"
  by (simp add: maybe_regular_expander_def str_int_1)

text \<open>
  C4. With \<open>max_tries = 1\<close>, \<open>n = 3\<close> and \<open>d = 2\<close> the first pass of the loop takes
  the drawn cycle (the state after the pass holds its three pairs), and the run
  still ends with the error for too many iterations; with \<open>max_tries = 2\<close> the same
  draw gives the graph. With \<open>max_tries = 0\<close> the count-down never meets 0: the
  second cycle of a run on five nodes is taken at the second pass.
\<close>

theorem found_cycle_still_raises:
  "attempt_cycle 3 ([], {}) [0, 1] = ([[0, 1, 2]], {(0, 1), (1, 2), (2, 0)})
   \<and> maybe_regular_expander 3 2 1 [[0, 1]]
       = Some (Inl (NetworkXError ''Too many iterations in maybe_regular_expander''), [])
   \<and> maybe_regular_expander 3 2 2 [[0, 1]]
       = Some (Inr \<lparr>nodes = {0, 1, 2},
                     adj = {(0, 1), (1, 2), (2, 0), (1, 0), (2, 1), (0, 2)}\<rparr>, [])
   \<and> maybe_regular_expander 5 4 0 [[0, 1, 2, 3], [0, 1, 2, 3], [1, 3, 0, 2]]
       = maybe_regular_expander 5 4 100 [[0, 1, 2, 3], [0, 1, 2, 3], [1, 3, 0, 2]]"
  by code_simp

text \<open>
  C7, as the code has it. For a negative \<open>epsilon\<close>,
  \<open>random_regular_expander_graph\<close> first builds one candidate with
  \<open>maybe_regular_expander\<close>, which draws permutations. An error of that call is
  raised as it is; otherwise the first spectral check raises the error for a
  negative \<open>epsilon\<close>, with the draws of that one candidate taken and no second
  candidate built.
\<close>

theorem negative_epsilon_raises_after_first_candidate:
  assumes "epsilon < 0"
  shows "random_regular_expander_graph eigsh n d epsilon max_tries rng =
     (case maybe_regular_expander n d max_tries rng of
        None \<Rightarrow> None
      | Some (Inl e, rng') \<Rightarrow> Some (Inl e, rng')
      | Some (Inr G, rng') \<Rightarrow> Some (Inl (NetworkXError ''epsilon must be non negative''), rng'))"
  using assms by (rule random_regular_expander_graph_negative_epsilon)

theorem negative_epsilon_raises_after_first_candidate_witness:
  "random_regular_expander_graph (\<lambda>k G. Inr (0, 0)) 3 2 (- 1) 100 [[0, 1]] =
     Some (Inl (NetworkXError ''epsilon must be non negative''), [])"
proof -
  have "(- 1 :: real) < 0" by simp
  from negative_epsilon_raises_after_first_candidate[OF this, of "\<lambda>k G. Inr (0, 0)" 3 2 100 "[[0, 1]]"]
  show ?thesis by (simp only: run_3_2 option.case prod.case sum.case)
qed

text \<open>
  C7 as stated fails: on three nodes with degree 2 and \<open>epsilon = -1\<close> the error
  comes with the draw taken from the random source.
\<close>

theorem negative_epsilon_not_before_drawing:
  "\<not> (\<forall>eigsh n d epsilon max_tries rng. epsilon < 0 \<longrightarrow>
        (\<exists>e. random_regular_expander_graph eigsh n d epsilon max_tries rng = Some (Inl e, rng)))"
proof
  assume "\<forall>eigsh n d epsilon max_tries rng. epsilon < 0 \<longrightarrow>
        (\<exists>e. random_regular_expander_graph eigsh n d epsilon max_tries rng = Some (Inl e, rng))"
  then have "\<exists>e. random_regular_expander_graph (\<lambda>k G. Inr (0, 0)) 3 2 (- 1) 100 [[0, 1]]
                 = Some (Inl e, [[0, 1]])"
    by simp
  then show False by (simp only: run_3_2_negative_epsilon) simp
qed

text \<open>
  C9. For an odd \<open>node_degree\<close> the constructor of the lifting raises the
  \<open>AssertionError\<close> of its parity check once the base constructor has returned, and
  in any case returns no object. The constructor takes neither the data nor a random
  source, so no graph is built and the number of nodes plays no part.
\<close>

theorem odd_node_degree_rejected:
  assumes "d mod 2 \<noteq> 0"
  shows "ExpanderGraphLifting_init (Inr ()) d
           = Inl (AssertionError ''Only even node degree are supported.'')
       \<and> (\<exists>e. ExpanderGraphLifting_init super_init d = Inl e)"
  using assms by (auto simp: ExpanderGraphLifting_init_def split: sum.splits)

theorem odd_node_degree_rejected_witness:
  "ExpanderGraphLifting_init (Inr ()) 3
           = Inl (AssertionError ''Only even node degree are supported.'')
       \<and> (\<exists>e. ExpanderGraphLifting_init (Inr ()) 3 = Inl e)"
  by (rule odd_node_degree_rejected) simp

text \<open>
  C10. \<open>TRANSFORMS\<close> has no entry under "ExpanderGraphLifting" and none of its
  entries is the class \<open>ExpanderGraphLifting\<close>; constructing a \<open>DataTransform\<close>
  with a name that is not a key of \<open>TRANSFORMS\<close> raises \<open>KeyError\<close> of that name.
\<close>

theorem registry_lacks_expander_lifting:
  assumes "TRANSFORMS name = None"
  shows "DataTransform_init instantiate (Some name) kwargs = Inl (KeyError name)
       \<and> TRANSFORMS ''ExpanderGraphLifting'' = None
       \<and> (\<forall>nm. TRANSFORMS nm \<noteq> Some ExpanderGraphLifting)"
  using assms TRANSFORMS_expander TRANSFORMS_no_expander
  by (simp add: DataTransform_init_def)

theorem registry_lacks_expander_lifting_witness:
  "DataTransform_init (\<lambda>cls kw. Inr cls) (Some ''ExpanderGraphLifting'') Map.empty
       = Inl (KeyError ''ExpanderGraphLifting'')
       \<and> TRANSFORMS ''ExpanderGraphLifting'' = None
       \<and> (\<forall>nm. TRANSFORMS nm \<noteq> Some ExpanderGraphLifting)"
  by (rule registry_lacks_expander_lifting) (simp add: TRANSFORMS_def)

text \<open>
  C8. When \<open>lift_topology\<close> returns a descriptor (every draw being a permutation of
  \<open>0 .. n - 2\<close>), the generator has returned a graph \<open>G\<close>, and the tensor of the
  descriptor is the incidence matrix of \<open>G\<close> for a list \<open>es\<close> of its edges that
  holds every edge once: column \<open>c\<close> has its two entries in the rows of the two end
  nodes of the edge number \<open>c\<close>, every stored value is 1, the tensor has \<open>n\<close> rows
  and as many columns as \<open>G\<close> has edges. So every column is incident to exactly two
  nodes, \<open>num_hyperedges\<close> is the number of columns and equals \<open>n * d / 2\<close>, and
  \<open>x_0\<close> is the feature matrix of the input.
\<close>

theorem lift_topology_descriptor:
  fixes position :: "graph \<Rightarrow> nat \<Rightarrow> nat \<Rightarrow> nat"
  assumes "lift_topology position eigsh self data global_rng = Some (Inr out, global_rng')"
    and "\<forall>p \<in> set global_rng. permutation_of (nat (data_num_nodes data) - 1) p"
  shows "\<exists>G es.
          random_regular_expander_graph eigsh (data_num_nodes data) (node_degree self) 0 100
            global_rng = Some (Inr G, global_rng')
        \<and> distinct es \<and> set es = {(u, v). (u, v) \<in> adj G \<and> u < v}
        \<and> tensor_indices (incidence_hyperedges out)
            = concat (map (\<lambda>(c, (u, v)). [(u, c), (v, c)]) (enumerate 0 es))
        \<and> tensor_values (incidence_hyperedges out) = replicate (2 * length es) 1
        \<and> tensor_size (incidence_hyperedges out) = (nat (data_num_nodes data), length es)
        \<and> (\<forall>c < num_hyperedges out.
              card {r. (r, c) \<in> set (tensor_indices (incidence_hyperedges out))} = 2)
        \<and> num_hyperedges out = snd (tensor_size (incidence_hyperedges out))
        \<and> int (num_hyperedges out) = data_num_nodes data * node_degree self div 2
        \<and> x_0 out = data_x data"
proof -
  obtain G es where
    f: "random_regular_expander_graph eigsh (data_num_nodes data) (node_degree self) 0 100
          global_rng = Some (Inr G, global_rng')"
      "distinct es" "set es = {(u, v). (u, v) \<in> adj G \<and> u < v}"
      "int (length es) = data_num_nodes data * node_degree self div 2"
      "tensor_indices (incidence_hyperedges out)
         = concat (map (\<lambda>(c, (u, v)). [(u, c), (v, c)]) (enumerate 0 es))"
      "tensor_values (incidence_hyperedges out) = replicate (2 * length es) 1"
      "tensor_size (incidence_hyperedges out) = (nat (data_num_nodes data), length es)"
      "num_hyperedges out = length es" "x_0 out = data_x data"
    and two: "\<And>c. c < length es \<Longrightarrow>
        card {r. (r, c) \<in> set (tensor_indices (incidence_hyperedges out))} = 2"
    by (rule lift_topology_incidence[OF assms]) blast
  have "\<forall>c < num_hyperedges out.
          card {r. (r, c) \<in> set (tensor_indices (incidence_hyperedges out))} = 2"
    using two f(8) by simp
  moreover have "num_hyperedges out = snd (tensor_size (incidence_hyperedges out))"
    using f(7,8) by simp
  moreover have "int (num_hyperedges out) = data_num_nodes data * node_degree self div 2"
    using f(4,8) by simp
  ultimately show ?thesis using f(1,2,3,5,6,7,9) by blast
qed

theorem lift_topology_descriptor_witness:
  "\<exists>out es. lift_topology (\<lambda>G u v. v) (\<lambda>k G. Inr (2, - 1.618)) \<lparr>node_degree = 2\<rparr>
            \<lparr>data_num_nodes = 5, data_x = ''features''\<rparr> [[0, 1, 2, 3]] = Some (Inr out, [])
     \<and> list_all (permutation_of 4) [[0, 1, 2, 3]]
     \<and> set es = {(0, 1), (1, 2), (2, 3), (3, 4), (0, 4)}
     \<and> tensor_indices (incidence_hyperedges out)
          = concat (map (\<lambda>(c, (u, v)). [(u, c), (v, c)]) (enumerate 0 es))
     \<and> tensor_size (incidence_hyperedges out) = (5, 5)
     \<and> num_hyperedges out = 5 \<and> x_0 out = ''features''
     \<and> card {r. (r, 0) \<in> set (tensor_indices (incidence_hyperedges out))} = 2"
proof -
  let ?run = "lift_topology (\<lambda>G u v. v) (\<lambda>k G. Inr (2, - 1.618)) \<lparr>node_degree = 2\<rparr>
            \<lparr>data_num_nodes = 5, data_x = ''features''\<rparr> [[0, 1, 2, 3]]"
  let ?G = "\<lparr>nodes = {0, 1, 2, 3, 4},
             adj = {(0, 1), (1, 2), (2, 3), (3, 4), (4, 0),
                    (1, 0), (2, 1), (3, 2), (4, 3), (0, 4)}\<rparr> :: graph"
  have "\<exists>out. ?run = Some (Inr out, [])"
    unfolding lift_topology_def np_random_state_def
    by (simp only: expander_graph_lifting.simps data.simps expander_5_2_a option.case
          prod.case sum.case Let_def) simp
  then obtain out where out: "?run = Some (Inr out, [])" ..
  have l: "list_all (permutation_of 4) [[0, 1, 2, 3]]" by code_simp
  then have p: "\<forall>p \<in> set [[0, 1, 2, 3]].
             permutation_of (nat (data_num_nodes \<lparr>data_num_nodes = 5, data_x = ''features''\<rparr>) - 1) p"
    by simp
  from lift_topology_descriptor[OF out p] obtain G es where
    d: "random_regular_expander_graph (\<lambda>k G. Inr (2, - 1.618)) 5 2 0 100 [[0, 1, 2, 3]]
          = Some (Inr G, [])"
      "set es = {(u, v). (u, v) \<in> adj G \<and> u < v}"
      "tensor_indices (incidence_hyperedges out)
          = concat (map (\<lambda>(c, (u, v)). [(u, c), (v, c)]) (enumerate 0 es))"
      "tensor_size (incidence_hyperedges out) = (5, length es)"
      "\<forall>c < num_hyperedges out.
          card {r. (r, c) \<in> set (tensor_indices (incidence_hyperedges out))} = 2"
      "int (num_hyperedges out) = 5"
      "num_hyperedges out = snd (tensor_size (incidence_hyperedges out))"
      "x_0 out = ''features''"
    by auto
  from d(1) have G: "G = ?G" unfolding expander_5_2_a by simp
  have "set es = {(0, 1), (1, 2), (2, 3), (3, 4), (0, 4)}"
    unfolding d(2) G by auto
  moreover have n5: "num_hyperedges out = 5" using d(6) by simp
  moreover have "tensor_size (incidence_hyperedges out) = (5, 5)"
    using d(4,7) n5 by simp
  moreover have "card {r. (r, 0) \<in> set (tensor_indices (incidence_hyperedges out))} = 2"
    using d(5) n5 by simp
  ultimately show ?thesis using out l d(3,8) by blast
qed

text \<open>
  C3, as the code has it. \<open>lift_topology\<close> names no seed, so the generator runs on
  the random generator shared by the whole process and leaves it advanced; the
  eigenvalue solver of the spectral check starts from a random vector of its own,
  which no seed reaches. A run takes a prefix of the draws the shared generator
  has to give; its outcome is fixed by the data, the node degree, the draws of
  that prefix, the answers of the solver at the checks of the run and the places
  of the adjacency dictionaries: a second run for which these are the same has
  the same outcome, whatever the generator holds after the prefix.
\<close>

theorem lift_topology_reads_global_generator:
  assumes "lift_topology position eigsh self data global_rng = Some (res, rest)"
  shows "\<exists>used. global_rng = used @ rest
     \<and> (\<forall>other. lift_topology position eigsh self data (used @ other) = Some (res, other))"
proof -
  let ?f = "random_regular_expander_graph eigsh (data_num_nodes data) (node_degree self) 0 100"
  from assms obtain r where f: "?f global_rng = Some (r, rest)"
    by (auto simp: lift_topology_def np_random_state_def Let_def
          split: option.splits prod.splits sum.splits)
  from random_regular_expander_graph_prefix[OF f] obtain used where u: "global_rng = used @ rest"
    "\<forall>other. ?f (used @ other) = Some (r, other)" by blast
  have "lift_topology position eigsh self data (used @ other) = Some (res, other)" for other
    using assms f u(2)[rule_format, of other]
    by (auto simp: lift_topology_def np_random_state_def Let_def split: sum.splits)
  with u(1) show ?thesis by blast
qed

theorem lift_topology_reads_global_generator_witness:
  "\<exists>res. lift_topology (\<lambda>G u v. v) (\<lambda>k G. Inr (2, - 1.618)) \<lparr>node_degree = 2\<rparr>
            \<lparr>data_num_nodes = 5, data_x = ()\<rparr> [[0, 1, 2, 3]] = Some (res, [])
     \<and> lift_topology (\<lambda>G u v. v) (\<lambda>k G. Inr (2, - 1.618)) \<lparr>node_degree = 2\<rparr>
            \<lparr>data_num_nodes = 5, data_x = ()\<rparr> [[0, 1, 2, 3], [3, 2, 1, 0]]
         = Some (res, [[3, 2, 1, 0]])"
proof -
  let ?lift = "lift_topology (\<lambda>G u v. v) (\<lambda>k G. Inr (2, - 1.618)) \<lparr>node_degree = 2\<rparr>
            \<lparr>data_num_nodes = 5, data_x = ()\<rparr>"
  have "\<exists>res. ?lift [[0, 1, 2, 3]] = Some (res, [])"
    unfolding lift_topology_def np_random_state_def
    by (simp only: expander_graph_lifting.simps data.simps expander_5_2_a option.case
          prod.case sum.case Let_def) simp
  then obtain res where res: "?lift [[0, 1, 2, 3]] = Some (res, [])" ..
  from lift_topology_reads_global_generator[OF res] obtain used where
    u: "[[0, 1, 2, 3]] = used @ []" "\<forall>other. ?lift (used @ other) = Some (res, other)"
    by blast
  from u(1) have "used = [[0, 1, 2, 3]]" by simp
  with u(2) have "?lift ([[0, 1, 2, 3]] @ [[3, 2, 1, 0]]) = Some (res, [[3, 2, 1, 0]])" by blast
  with res show ?thesis by auto
qed

text \<open>
  C3 as stated fails. Whatever the places of the adjacency dictionaries: on five
  nodes with degree 2, two states of the shared generator give two different
  descriptors; and on four nodes with degree 2, from one and the same state of the
  shared generator, two series of answers of the solver give two different
  descriptors.
\<close>

theorem lift_topology_depends_on_global_generator:
  "(\<forall>position.
      map_option fst (lift_topology position (\<lambda>k G. Inr (2, - 1.618)) \<lparr>node_degree = 2\<rparr>
                        \<lparr>data_num_nodes = 5, data_x = ()\<rparr> [[0, 1, 2, 3]])
      \<noteq> map_option fst (lift_topology position (\<lambda>k G. Inr (2, - 1.618)) \<lparr>node_degree = 2\<rparr>
                        \<lparr>data_num_nodes = 5, data_x = ()\<rparr> [[1, 0, 2, 3]]))
   \<and> (\<forall>position.
      map_option fst (lift_topology position (\<lambda>k G. Inr (2, - 1.9999999999999998))
                        \<lparr>node_degree = 2\<rparr> \<lparr>data_num_nodes = 4, data_x = ()\<rparr>
                        [[0, 1, 2], [1, 0, 2]])
      \<noteq> map_option fst (lift_topology position
                        (\<lambda>k G. if k = 0 then Inr (2, - 2) else Inr (2, - 1.9999999999999998))
                        \<lparr>node_degree = 2\<rparr> \<lparr>data_num_nodes = 4, data_x = ()\<rparr>
                        [[0, 1, 2], [1, 0, 2]]))"
proof (intro conjI allI)
  fix position :: "graph \<Rightarrow> nat \<Rightarrow> nat \<Rightarrow> nat"
  let ?S = "\<lparr>node_degree = 2\<rparr>" and ?D = "\<lparr>data_num_nodes = 5, data_x = ()\<rparr>"
  let ?E = "\<lambda>(k::nat) (G::graph). Inr (2::real, - 1.618 :: real) :: error + real \<times> real"
  have l: "list_all (permutation_of 4) [[0, 1, 2, 3]]" "list_all (permutation_of 4) [[1, 0, 2, 3]]"
    by code_simp+
  have p1: "\<forall>p \<in> set [[0, 1, 2, 3]]. permutation_of (nat (data_num_nodes ?D) - 1) p"
    using l(1) by simp
  have p2: "\<forall>p \<in> set [[1, 0, 2, 3]]. permutation_of (nat (data_num_nodes ?D) - 1) p"
    using l(2) by simp
  have a: "random_regular_expander_graph ?E (data_num_nodes ?D) (node_degree ?S) 0 100
             [[0, 1, 2, 3]]
      = Some (Inr \<lparr>nodes = {0, 1, 2, 3, 4},
                adj = {(0, 1), (1, 2), (2, 3), (3, 4), (4, 0),
                       (1, 0), (2, 1), (3, 2), (4, 3), (0, 4)}\<rparr>, [])"
    by (simp only: data.simps expander_graph_lifting.simps expander_5_2_a)
  have b: "random_regular_expander_graph ?E (data_num_nodes ?D) (node_degree ?S) 0 100
             [[1, 0, 2, 3]]
      = Some (Inr \<lparr>nodes = {0, 1, 2, 3, 4},
                adj = {(1, 0), (0, 2), (2, 3), (3, 4), (4, 1),
                       (0, 1), (2, 0), (3, 2), (4, 3), (1, 4)}\<rparr>, [])"
    by (simp only: data.simps expander_graph_lifting.simps expander_5_2_b)
  show "map_option fst (lift_topology position ?E ?S ?D [[0, 1, 2, 3]])
      \<noteq> map_option fst (lift_topology position ?E ?S ?D [[1, 0, 2, 3]])"
    by (rule descriptors_differ[OF a b p1 p2, of 0 4]) simp_all
next
  fix position :: "graph \<Rightarrow> nat \<Rightarrow> nat \<Rightarrow> nat"
  let ?S = "\<lparr>node_degree = 2\<rparr>" and ?D = "\<lparr>data_num_nodes = 4, data_x = ()\<rparr>"
  let ?E1 = "\<lambda>(k::nat) (G::graph). Inr (2::real, - 1.9999999999999998 :: real) :: error + real \<times> real"
  let ?E2 = "\<lambda>(k::nat) (G::graph). if k = 0 then Inr (2::real, - 2 :: real)
               else Inr (2, - 1.9999999999999998) :: error + real \<times> real"
  have l: "list_all (permutation_of 3) [[0, 1, 2], [1, 0, 2]]" by code_simp
  have p: "\<forall>p \<in> set [[0, 1, 2], [1, 0, 2]]. permutation_of (nat (data_num_nodes ?D) - 1) p"
    using l by simp
  have a: "random_regular_expander_graph ?E1 (data_num_nodes ?D) (node_degree ?S) 0 100
             [[0, 1, 2], [1, 0, 2]]
      = Some (Inr \<lparr>nodes = {0, 1, 2, 3},
                adj = {(0, 1), (1, 2), (2, 3), (3, 0), (1, 0), (2, 1), (3, 2), (0, 3)}\<rparr>,
              [[1, 0, 2]])"
    by (simp only: data.simps expander_graph_lifting.simps expander_4_2_rounded)
  have b: "random_regular_expander_graph ?E2 (data_num_nodes ?D) (node_degree ?S) 0 100
             [[0, 1, 2], [1, 0, 2]]
      = Some (Inr \<lparr>nodes = {0, 1, 2, 3},
                adj = {(1, 0), (0, 2), (2, 3), (3, 1), (0, 1), (2, 0), (3, 2), (1, 3)}\<rparr>, [])"
    by (simp only: data.simps expander_graph_lifting.simps expander_4_2_exact)
  show "map_option fst (lift_topology position ?E1 ?S ?D [[0, 1, 2], [1, 0, 2]])
      \<noteq> map_option fst (lift_topology position ?E2 ?S ?D [[0, 1, 2], [1, 0, 2]])"
    by (rule descriptors_differ[OF a b p p, of 1 2]) simp_all
qed

text \<open>
  C1. On the 10-regular graph above, with the eigenvalues 10 and -7 of largest
  magnitude and \<open>epsilon = 0\<close>, the check accepts: the code compares 7 with
  \<open>2 ** sqrt 9 = 8\<close>. The bound of the documentation is \<open>2 * sqrt 9 = 6\<close>, which 7
  does not stay below.
\<close>

theorem threshold_is_power_not_product:
  "is_regular_expander (\<lambda>G. Inr (10, - 7)) petersen_join 0 = Inr True
   \<and> int (degree petersen_join (Min (nodes petersen_join))) = 10
   \<and> \<not> \<bar>min 10 (- 7)\<bar> < alon_boppana_bound 10 0"
  by (simp add: is_regular_expander_def petersen_join_regular
        alon_boppana_bound_def sqrt_9)

end
